theory Spec2Isabelle
  imports Complex_Main
begin

section \<open>Browser primitives shared by the components\<close>

text \<open>
  JavaScript strings are sequences of UTF-16 code units; the text being typed is a list
  over an arbitrary type of code units. Storage keys and values, element ids and error
  messages are ASCII and are written as HOL strings.
\<close>

datatype js_error = Error string | RangeError string

text \<open>
  \<open>setTimeout\<close> hands out fresh positive ids and remembers the callback until it fires
  or is cleared; \<open>clearTimeout\<close> of an id that is not pending does nothing. The callback
  is represented by a tag of type \<open>'k\<close> that the owning component interprets.
\<close>

record 'k timers =
  next_id :: nat
  pending :: "nat \<rightharpoonup> 'k"

definition no_timers :: "'k timers" where
  "no_timers = \<lparr>next_id = 1, pending = Map.empty\<rparr>"

definition setTimeout :: "'k \<Rightarrow> 'k timers \<Rightarrow> nat \<times> 'k timers" where
  "setTimeout k t =
     (next_id t, \<lparr>next_id = Suc (next_id t), pending = (pending t)(next_id t \<mapsto> k)\<rparr>)"

definition clearTimeout :: "nat \<Rightarrow> 'k timers \<Rightarrow> 'k timers" where
  "clearTimeout i t = t\<lparr>pending := (pending t)(i := None)\<rparr>"

text \<open>
  \<open>sessionStorage\<close>: the stored items, and the keys passed to \<open>setItem\<close> in call order
  (newest first), so that the number of writes can be counted.
\<close>

record session =
  items :: "string \<rightharpoonup> string"
  setItem_log :: "string list"

definition getItem :: "string \<Rightarrow> session \<Rightarrow> string option" where
  "getItem k st = items st k"

definition setItem :: "string \<Rightarrow> string \<Rightarrow> session \<Rightarrow> session" where
  "setItem k v st = \<lparr>items = (items st)(k \<mapsto> v), setItem_log = k # setItem_log st\<rparr>"

text \<open>The truthiness of what \<open>getItem\<close> returns: \<open>null\<close> and the empty string are falsy.\<close>

definition truthy :: "string option \<Rightarrow> bool" where
  "truthy r = (case r of None \<Rightarrow> False | Some v \<Rightarrow> v \<noteq> [])"

section \<open>utils/typewriter.js\<close>

record 'c element =
  textContent :: "'c list"
  data_text :: "'c list option"

record tw_config =
  delay :: int
  startDelay :: int
  onCharacter :: bool
  onComplete :: bool

definition DEFAULT_CONFIG :: tw_config where
  "DEFAULT_CONFIG = \<lparr>delay = 80, startDelay = 0, onCharacter = False, onComplete = False\<rparr>"

datatype 'c callback = OnCharacter 'c nat | OnComplete

datatype promise = Pending | Resolved | Rejected js_error

text \<open>
  A typing process: the element being written, the loop index, whether the start-delay
  timeout and the interval are pending, the state of the returned promise, the callbacks
  fired so far (newest first) and the \<open>cancelled\<close> flag of the cancellable variant.
\<close>

record 'c typing =
  target :: "'c element"
  index :: nat
  startPending :: bool
  interval :: bool
  cancelled :: bool
  result :: promise
  fired :: "'c callback list"

definition falsy_text :: "'c list option \<Rightarrow> bool" where
  "falsy_text text = (case text of None \<Rightarrow> True | Some t \<Rightarrow> t = [])"

definition typing_init :: "'c element \<Rightarrow> 'c typing" where
  "typing_init el = \<lparr>target = el, index = 0, startPending = False, interval = False,
     cancelled = False, result = Pending, fired = []\<rparr>"

text \<open>
  \<open>typeWriter\<close> up to its first suspension point. A \<open>throw\<close> in the async function
  reaches the caller as the error (\<open>Inl\<close>).
\<close>

definition typeWriter :: "'c list option \<Rightarrow> 'c element option \<Rightarrow> tw_config \<Rightarrow> js_error + 'c typing" where
  "typeWriter text element config =
     (case element of
        None \<Rightarrow> Inl (Error ''typeWriter: element is required'')
      | Some el \<Rightarrow>
          if falsy_text text then Inr ((typing_init el)\<lparr>result := Resolved\<rparr>)
          else if startDelay config > 0 then Inr ((typing_init el)\<lparr>startPending := True\<rparr>)
          else Inr ((typing_init el)\<lparr>interval := True\<rparr>))"

text \<open>The start-delay timeout of \<open>typeWriter\<close> fires: the interval is installed.\<close>

definition typeWriter_started :: "'c typing \<Rightarrow> 'c typing" where
  "typeWriter_started t =
     (if startPending t then t\<lparr>startPending := False, interval := True\<rparr> else t)"

definition type_char :: "'c list \<Rightarrow> tw_config \<Rightarrow> 'c typing \<Rightarrow> 'c typing" where
  "type_char text config t =
     (let el = target t;
          content = textContent el @ [text ! index t];
          el' = el\<lparr>textContent := content, data_text := Some content\<rparr>
      in t\<lparr>target := el',
           fired := (if onCharacter config then OnCharacter (text ! index t) (index t) # fired t
                     else fired t),
           index := Suc (index t)\<rparr>)"

definition finish_typing :: "tw_config \<Rightarrow> 'c typing \<Rightarrow> 'c typing" where
  "finish_typing config t =
     t\<lparr>interval := False,
       fired := (if onComplete config then OnComplete # fired t else fired t),
       result := Resolved\<rparr>"

text \<open>One firing of the interval callback of \<open>typeWriter\<close>; a cleared interval never fires.\<close>

definition typeWriter_tick :: "'c list \<Rightarrow> tw_config \<Rightarrow> 'c typing \<Rightarrow> 'c typing" where
  "typeWriter_tick text config t =
     (if \<not> interval t then t
      else if index t < length text then type_char text config t
      else finish_typing config t)"

text \<open>
  \<open>typeWriterCancellable\<close>: the promise executor runs at once. \<open>Inl\<close> is the returned
  object whose promise is already rejected (no typing process exists then); \<open>Inr\<close> is
  the typing process, whose \<open>result\<close> is the promise.
\<close>

definition typeWriterCancellable :: "'c list option \<Rightarrow> 'c element option \<Rightarrow> tw_config \<Rightarrow> js_error + 'c typing" where
  "typeWriterCancellable text element config =
     (case element of
        None \<Rightarrow> Inl (Error ''typeWriterCancellable: element is required'')
      | Some el \<Rightarrow>
          if falsy_text text then Inr ((typing_init el)\<lparr>result := Resolved\<rparr>)
          else if startDelay config > 0 then Inr ((typing_init el)\<lparr>startPending := True\<rparr>)
          else Inr ((typing_init el)\<lparr>interval := True\<rparr>))"

text \<open>The start-delay timeout of the cancellable variant: it starts typing unless cancelled.\<close>

definition cancellable_started :: "'c typing \<Rightarrow> 'c typing" where
  "cancellable_started t =
     (if startPending t
      then (if \<not> cancelled t then t\<lparr>startPending := False, interval := True\<rparr>
            else t\<lparr>startPending := False\<rparr>)
      else t)"

definition cancellable_tick :: "'c list \<Rightarrow> tw_config \<Rightarrow> 'c typing \<Rightarrow> 'c typing" where
  "cancellable_tick text config t =
     (if \<not> interval t then t
      else if cancelled t then t\<lparr>interval := False, result := Rejected (Error ''Typewriter cancelled'')\<rparr>
      else if index t < length text then type_char text config t
      else finish_typing config t)"

definition cancel :: "'c typing \<Rightarrow> 'c typing" where
  "cancel t = t\<lparr>cancelled := True, interval := False\<rparr>"

definition instantText :: "'c list \<Rightarrow> 'c element option \<Rightarrow> js_error + 'c element" where
  "instantText text element =
     (case element of
        None \<Rightarrow> Inl (Error ''instantText: element is required'')
      | Some el \<Rightarrow> Inr (el\<lparr>textContent := text, data_text := Some text\<rparr>))"

text \<open>The events a cancellable typing process can receive, and a run over a list of them.\<close>

datatype tw_event = StartDelayElapsed | IntervalTick | Cancel

fun cancellable_step :: "'c list \<Rightarrow> tw_config \<Rightarrow> tw_event \<Rightarrow> 'c typing \<Rightarrow> 'c typing" where
  "cancellable_step text config StartDelayElapsed t = cancellable_started t"
| "cancellable_step text config IntervalTick t = cancellable_tick text config t"
| "cancellable_step text config Cancel t = cancel t"

fun cancellable_run :: "'c list \<Rightarrow> tw_config \<Rightarrow> tw_event list \<Rightarrow> 'c typing \<Rightarrow> 'c typing" where
  "cancellable_run text config [] t = t"
| "cancellable_run text config (e # es) t = cancellable_run text config es (cancellable_step text config e t)"

text \<open>\<open>typeWriter\<close> has no cancel operation: after its start delay only the interval fires.\<close>

fun typeWriter_ticks :: "'c list \<Rightarrow> tw_config \<Rightarrow> nat \<Rightarrow> 'c typing \<Rightarrow> 'c typing" where
  "typeWriter_ticks text config 0 t = t"
| "typeWriter_ticks text config (Suc n) t = typeWriter_ticks text config n (typeWriter_tick text config t)"

section \<open>The document\<close>

text \<open>
  What the controllers ask of the DOM: which element ids are attached to the document,
  and how many \<open>nav a\<close> links an element contains. An element is named by its id.
  \<open>getElementById\<close> turns its argument into a string: a missing id is looked up as
  \<open>undefined\<close>.
\<close>

record dom =
  attached :: "string set"
  nav_links :: "string \<Rightarrow> nat"

definition getElementById :: "string option \<Rightarrow> dom \<Rightarrow> string option" where
  "getElementById i d =
     (let x = (case i of None \<Rightarrow> ''undefined'' | Some y \<Rightarrow> y)
      in if x \<in> attached d then Some x else None)"

definition falsy_id :: "string option \<Rightarrow> bool" where
  "falsy_id i = (case i of None \<Rightarrow> True | Some x \<Rightarrow> x = [])"

section \<open>The intro controller (\<open>IntroController\<close>)\<close>

text \<open>
  The configuration after the defaults have been merged with the caller's object; a
  callback field says whether the caller supplied one.
\<close>

record intro_config =
  introId :: "string option"
  storageKey :: string
  fadeOutDuration :: int
  skipOnKey :: bool
  skipOnClick :: bool
  showOnRefresh :: bool
  onSkip :: bool
  intro_onComplete :: bool

definition intro_defaults :: intro_config where
  "intro_defaults = \<lparr>introId = None, storageKey = ''terminalIntroShown'', fadeOutDuration = 500,
     skipOnKey = True, skipOnClick = True, showOnRefresh = True, onSkip = False,
     intro_onComplete = False\<rparr>"

datatype intro_callback = Skipped | Completed

text \<open>
  The controller's fields, followed by the part of the page it acts on: the document,
  the listeners it has on the document, the \<open>hidden\<close> class of the intro element, the
  number of pending fade-out timeouts, session storage, the callbacks fired and the
  console warnings (newest first).
\<close>

record intro =
  config :: intro_config
  introElement :: "string option"
  isSkipped :: bool
  isComplete :: bool
  skipHandlers :: "string list"
  document :: dom
  listeners :: "string list"
  hidden :: bool
  fadeOuts :: nat
  storage :: session
  calls :: "intro_callback list"
  warnings :: "string list"

definition IntroController :: "intro_config \<Rightarrow> dom \<Rightarrow> session \<Rightarrow> js_error + intro" where
  "IntroController cfg d st =
     (if falsy_id (introId cfg) then Inl (Error ''IntroController: introId is required'')
      else Inr \<lparr>config = cfg, introElement = None, isSkipped = False, isComplete = False,
             skipHandlers = [], document = d, listeners = [], hidden = False, fadeOuts = 0,
             storage = st, calls = [], warnings = []\<rparr>)"

definition removeIntro :: "intro \<Rightarrow> intro" where
  "removeIntro s =
     (case introElement s of
        None \<Rightarrow> s
      | Some e \<Rightarrow>
          if e \<in> attached (document s)
          then s\<lparr>document := (document s)\<lparr>attached := attached (document s) - {e}\<rparr>\<rparr>
          else s)"

definition removeHandlers :: "intro \<Rightarrow> intro" where
  "removeHandlers s =
     s\<lparr>listeners := filter (\<lambda>l. l \<notin> set (skipHandlers s)) (listeners s), skipHandlers := []\<rparr>"

definition attachKeyHandler :: "intro \<Rightarrow> intro" where
  "attachKeyHandler s =
     s\<lparr>listeners := listeners s @ [''keydown''], skipHandlers := skipHandlers s @ [''keydown'']\<rparr>"

definition attachClickHandler :: "intro \<Rightarrow> intro" where
  "attachClickHandler s =
     s\<lparr>listeners := listeners s @ [''click''], skipHandlers := skipHandlers s @ [''click'']\<rparr>"

definition hideIntro :: "intro \<Rightarrow> intro" where
  "hideIntro s =
     (case introElement s of
        None \<Rightarrow> s
      | Some e \<Rightarrow> removeHandlers (s\<lparr>hidden := True, fadeOuts := Suc (fadeOuts s)\<rparr>))"

text \<open>
  \<open>init\<close>; the first argument is what \<open>_isPageReload\<close> reads from the performance API.
\<close>

definition init :: "bool \<Rightarrow> intro \<Rightarrow> bool \<times> intro" where
  "init isReload s0 =
     (let s = s0\<lparr>introElement := getElementById (introId (config s0)) (document s0)\<rparr>
      in if introElement s = None
         then (False, s\<lparr>warnings := ''IntroController: element not found'' # warnings s\<rparr>)
         else
           let introShown = getItem (storageKey (config s)) (storage s);
               shouldShow = (if showOnRefresh (config s) then isReload else \<not> truthy introShown)
           in if \<not> shouldShow then (False, removeIntro s)
              else
                let s1 = (if skipOnKey (config s) then attachKeyHandler s else s);
                    s2 = (if skipOnClick (config s1) then attachClickHandler s1 else s1)
                in (True, s2))"

definition skip :: "intro \<Rightarrow> intro" where
  "skip s =
     (if isSkipped s \<or> isComplete s then s
      else
        let s1 = s\<lparr>isSkipped := True\<rparr>;
            s2 = (if onSkip (config s1) then s1\<lparr>calls := Skipped # calls s1\<rparr> else s1)
        in hideIntro s2)"

definition complete :: "intro \<Rightarrow> intro" where
  "complete s =
     (if isSkipped s \<or> isComplete s then s
      else
        let s1 = s\<lparr>isComplete := True\<rparr>;
            s2 = s1\<lparr>storage := setItem (storageKey (config s1)) ''true'' (storage s1)\<rparr>;
            s3 = (if intro_onComplete (config s2) then s2\<lparr>calls := Completed # calls s2\<rparr> else s2)
        in hideIntro s3)"

definition destroy :: "intro \<Rightarrow> intro" where
  "destroy s = (removeHandlers s)\<lparr>introElement := None\<rparr>"

text \<open>A pending fade-out timeout fires and calls \<open>_removeIntro\<close>.\<close>

definition fadeOut_elapsed :: "intro \<Rightarrow> intro" where
  "fadeOut_elapsed s = (if fadeOuts s = 0 then s else removeIntro (s\<lparr>fadeOuts := fadeOuts s - 1\<rparr>))"

text \<open>
  What can happen to a controller after \<open>init\<close>: a key press or click on the document
  (which reaches \<open>skip\<close> only through an installed handler), a direct call of a public
  method, or a fade-out timeout.
\<close>

datatype intro_event = KeyDown | Click | CallSkip | CallComplete | CallDestroy | FadeOutElapsed

fun intro_step :: "intro_event \<Rightarrow> intro \<Rightarrow> intro" where
  "intro_step KeyDown s = (if ''keydown'' \<in> set (listeners s) then skip s else s)"
| "intro_step Click s = (if ''click'' \<in> set (listeners s) then skip s else s)"
| "intro_step CallSkip s = skip s"
| "intro_step CallComplete s = complete s"
| "intro_step CallDestroy s = destroy s"
| "intro_step FadeOutElapsed s = fadeOut_elapsed s"

fun intro_run :: "intro_event list \<Rightarrow> intro \<Rightarrow> intro" where
  "intro_run [] s = s"
| "intro_run (e # es) s = intro_run es (intro_step e s)"

section \<open>The modal controller (\<open>ModalController\<close>): construction\<close>

record modal_config =
  modalId :: "string option"
  triggerIds :: "string list option"
  closeIds :: "string list option"
  transitionDuration :: int
  closeOnNavigation :: bool
  closeOnEscape :: bool
  closeOnResize :: bool
  resizeBreakpoint :: int

datatype modal_listener =
  TriggerClick string | CloseClick string | NavLinkClick nat | EscapeKey | WindowResize

record modal_ctl =
  modal_cfg :: modal_config
  isOpen :: bool
  modal :: "string option"
  triggers :: "string list"
  closeButtons :: "string list"
  modal_listeners :: "modal_listener list"
  modal_warnings :: "string list"

text \<open>\<open>ids?.map(id => document.getElementById(id)).filter(Boolean) || []\<close>\<close>

definition lookup_all :: "string list option \<Rightarrow> dom \<Rightarrow> string list" where
  "lookup_all ids d =
     (case ids of
        None \<Rightarrow> []
      | Some xs \<Rightarrow> List.map_filter (\<lambda>x. getElementById (Some x) d) xs)"

definition attachListeners :: "dom \<Rightarrow> modal_ctl \<Rightarrow> modal_ctl" where
  "attachListeners d m =
     (let l1 = map TriggerClick (triggers m);
          l2 = map CloseClick (closeButtons m);
          l3 = (if closeOnNavigation (modal_cfg m)
                then (case modal m of
                        None \<Rightarrow> []
                      | Some e \<Rightarrow> map NavLinkClick [0 ..< nav_links d e])
                else []);
          l4 = (if closeOnEscape (modal_cfg m) then [EscapeKey] else []);
          l5 = (if closeOnResize (modal_cfg m) then [WindowResize] else [])
      in m\<lparr>modal_listeners := modal_listeners m @ l1 @ l2 @ l3 @ l4 @ l5\<rparr>)"

definition modal_init :: "dom \<Rightarrow> modal_ctl \<Rightarrow> modal_ctl" where
  "modal_init d m0 =
     (let m = m0\<lparr>modal := getElementById (modalId (modal_cfg m0)) d\<rparr>
      in if modal m = None
         then m\<lparr>modal_warnings := ''Modal element not found'' # modal_warnings m\<rparr>
         else attachListeners d
                (m\<lparr>triggers := lookup_all (triggerIds (modal_cfg m)) d,
                   closeButtons := lookup_all (closeIds (modal_cfg m)) d\<rparr>))"

definition ModalController :: "modal_config \<Rightarrow> dom \<Rightarrow> modal_ctl" where
  "ModalController cfg d =
     modal_init d \<lparr>modal_cfg = cfg, isOpen = False, modal = None, triggers = [],
       closeButtons = [], modal_listeners = [], modal_warnings = []\<rparr>"

section \<open>The glitch animator (\<open>GlitchAnimator\<close>)\<close>

text \<open>
  The two timeouts of the animator: the one \<open>_scheduleNextGlitch\<close> stores in
  \<open>timeoutId\<close>, which runs \<open>_executeGlitch\<close>, and the glitch-duration timeout, which is
  not stored anywhere; the duration timeout of \<open>triggerOnce\<close> only removes the class.
  The random delays are not modelled: any pending timeout may be the next to fire.
  Besides the fields of the class the state holds the pending timeouts, whether the
  element carries the \<open>glitch\<close> class, and two counters kept for the proofs: the
  glitches applied and the next-glitch timeouts created.
\<close>

datatype glitch_timer = NextGlitch | GlitchEnd | OnceEnd

record animator =
  isRunning :: bool
  timeoutId :: "nat option"
  gtimers :: "glitch_timer timers"
  glitchClass :: bool
  executed :: nat
  scheduled :: nat

definition GlitchAnimator :: animator where
  "GlitchAnimator = \<lparr>isRunning = False, timeoutId = None, gtimers = no_timers,
     glitchClass = False, executed = 0, scheduled = 0\<rparr>"

definition scheduleNextGlitch :: "animator \<Rightarrow> animator" where
  "scheduleNextGlitch a =
     (if \<not> isRunning a then a
      else
        let (i, t) = setTimeout NextGlitch (gtimers a)
        in a\<lparr>timeoutId := Some i, gtimers := t, scheduled := Suc (scheduled a)\<rparr>)"

definition start :: "animator \<Rightarrow> animator" where
  "start a = (if isRunning a then a else scheduleNextGlitch (a\<lparr>isRunning := True\<rparr>))"

definition stop :: "animator \<Rightarrow> animator" where
  "stop a =
     (let a1 = a\<lparr>isRunning := False\<rparr>
      in case timeoutId a1 of
           None \<Rightarrow> a1
         | Some i \<Rightarrow> a1\<lparr>gtimers := clearTimeout i (gtimers a1), timeoutId := None\<rparr>)"

text \<open>
  In \<open>triggerOnce\<close> and \<open>_executeGlitch\<close> the argument says whether
  \<open>document.getElementById(this.elementId)\<close> finds the element at that moment.
\<close>

definition triggerOnce :: "bool \<Rightarrow> animator \<Rightarrow> animator" where
  "triggerOnce found a =
     (if \<not> found then a
      else
        let (i, t) = setTimeout OnceEnd (gtimers a)
        in a\<lparr>glitchClass := True, executed := Suc (executed a), gtimers := t\<rparr>)"

definition executeGlitch :: "bool \<Rightarrow> animator \<Rightarrow> animator" where
  "executeGlitch found a =
     (if \<not> found then stop a
      else
        let (i, t) = setTimeout GlitchEnd (gtimers a)
        in a\<lparr>glitchClass := True, executed := Suc (executed a), gtimers := t\<rparr>)"

text \<open>The callback of a timeout of each kind.\<close>

fun timeout_callback :: "glitch_timer \<Rightarrow> bool \<Rightarrow> animator \<Rightarrow> animator" where
  "timeout_callback NextGlitch found a = executeGlitch found a"
| "timeout_callback GlitchEnd found a = scheduleNextGlitch (a\<lparr>glitchClass := False\<rparr>)"
| "timeout_callback OnceEnd found a = a\<lparr>glitchClass := False\<rparr>"

text \<open>The timeout with id \<open>i\<close> fires, if it is still pending.\<close>

definition fire :: "nat \<Rightarrow> bool \<Rightarrow> animator \<Rightarrow> animator" where
  "fire i found a =
     (case pending (gtimers a) i of
        None \<Rightarrow> a
      | Some k \<Rightarrow> timeout_callback k found (a\<lparr>gtimers := clearTimeout i (gtimers a)\<rparr>))"

datatype glitch_event = Start | Stop | TriggerOnce bool | Fire nat bool

fun glitch_step :: "glitch_event \<Rightarrow> animator \<Rightarrow> animator" where
  "glitch_step Start a = start a"
| "glitch_step Stop a = stop a"
| "glitch_step (TriggerOnce found) a = triggerOnce found a"
| "glitch_step (Fire i found) a = fire i found a"

fun glitch_run :: "glitch_event list \<Rightarrow> animator \<Rightarrow> animator" where
  "glitch_run [] a = a"
| "glitch_run (e # es) a = glitch_run es (glitch_step e a)"

text \<open>
  What every run of the animator keeps: timeout ids are handed out in increasing order,
  and the timeout recorded in \<open>timeoutId\<close> is a next-glitch timeout if it is pending
  at all; the glitch-duration timeouts are never recorded.
\<close>

definition glitch_inv :: "animator \<Rightarrow> bool" where
  "glitch_inv a \<longleftrightarrow>
     (\<forall>j. next_id (gtimers a) \<le> j \<longrightarrow> pending (gtimers a) j = None)
     \<and> (\<forall>i. timeoutId a = Some i \<longrightarrow>
            i < next_id (gtimers a) \<and> pending (gtimers a) i \<noteq> Some GlitchEnd
            \<and> pending (gtimers a) i \<noteq> Some OnceEnd)"

section \<open>The progress bar (\<open>ProgressBar\<close>)\<close>

text \<open>
  \<open>percentage\<close>, \<open>width\<close> and the animated \<open>currentPercent\<close> are JavaScript numbers,
  that is, doubles. They are reals here, and the rounding of an arithmetic result to
  the nearest double is the parameter \<open>fl\<close> of every function that computes: \<open>a + b\<close>
  of the code is \<open>fl (a + b)\<close>. What the proofs use of this rounding is \<open>rounding\<close>: it
  is monotone, and exact on the integers up to \<open>2 ^ 53\<close>.
\<close>

definition rounding :: "(real \<Rightarrow> real) \<Rightarrow> bool" where
  "rounding fl \<longleftrightarrow>
     (\<forall>x y. x \<le> y \<longrightarrow> fl x \<le> fl y)
     \<and> (\<forall>k :: int. \<bar>k\<bar> \<le> 2 ^ 53 \<longrightarrow> fl (real_of_int k) = real_of_int k)"

text \<open>The component's state variable and the \<open>percentage\<close> prop of its last render.\<close>

record progress =
  currentPercent :: real
  percentage :: real

definition ProgressBar :: "real \<Rightarrow> progress" where
  "ProgressBar p = \<lparr>currentPercent = 0, percentage = p\<rparr>"

text \<open>
  The 15 ms timeout fires. The effect depends on \<open>currentPercent\<close> and \<open>percentage\<close>,
  so the closure of the pending timeout holds the current values of both.
\<close>

definition progress_timer :: "(real \<Rightarrow> real) \<Rightarrow> progress \<Rightarrow> progress" where
  "progress_timer fl s =
     (if currentPercent s < percentage s
      then s\<lparr>currentPercent := min (fl (currentPercent s + 3)) (percentage s)\<rparr>
      else s)"

text \<open>The events of a mounted bar: its timeout fires, or the parent passes a new percentage.\<close>

datatype progress_event = BarTimer | BarProps real

fun progress_step :: "(real \<Rightarrow> real) \<Rightarrow> progress_event \<Rightarrow> progress \<Rightarrow> progress" where
  "progress_step fl BarTimer s = progress_timer fl s"
| "progress_step fl (BarProps p) s = s\<lparr>percentage := p\<rparr>"

fun progress_run :: "(real \<Rightarrow> real) \<Rightarrow> progress_event list \<Rightarrow> progress \<Rightarrow> progress" where
  "progress_run fl [] s = s"
| "progress_run fl (e # es) s = progress_run fl es (progress_step fl e s)"

text \<open>
  \<open>String.prototype.repeat\<close> truncates its count towards zero and throws a \<open>RangeError\<close>
  when the result is negative, or when the string would be longer than the engine
  allows; that limit is the parameter \<open>limit\<close>.
\<close>

definition trunc :: "real \<Rightarrow> int" where
  "trunc x = (if 0 \<le> x then \<lfloor>x\<rfloor> else \<lceil>x\<rceil>)"

definition repeat :: "nat \<Rightarrow> 'c \<Rightarrow> real \<Rightarrow> js_error + 'c list" where
  "repeat limit c count =
     (let n = trunc count
      in if n < 0 then Inl (RangeError ''Invalid count value'')
         else if int limit < n then Inl (RangeError ''Invalid string length'')
         else Inr (replicate (nat n) c))"

definition filled :: "(real \<Rightarrow> real) \<Rightarrow> real \<Rightarrow> real \<Rightarrow> real" where
  "filled fl current width = real_of_int \<lfloor>fl (fl (current / 100) * width)\<rfloor>"

definition empty :: "(real \<Rightarrow> real) \<Rightarrow> real \<Rightarrow> real \<Rightarrow> real" where
  "empty fl current width = fl (width - filled fl current width)"

datatype cell = Full | Blank

text \<open>
  The content of the span: the two repeated strings are adjacent children, rendered
  one after the other.
\<close>

definition bar :: "(real \<Rightarrow> real) \<Rightarrow> nat \<Rightarrow> real \<Rightarrow> real \<Rightarrow> js_error + cell list" where
  "bar fl limit current width =
     (case repeat limit Full (filled fl current width) of
        Inl e \<Rightarrow> Inl e
      | Inr f \<Rightarrow>
          (case repeat limit Blank (empty fl current width) of
             Inl e \<Rightarrow> Inl e
           | Inr b \<Rightarrow> Inr (f @ b)))"

section \<open>React components\<close>

text \<open>
  The strings typed by the React components are lists of UTF-16 code units. Appending
  \<open>text[i]\<close> to a string appends one code unit when \<open>i\<close> is in range and the text
  \<open>undefined\<close> otherwise.
\<close>

text \<open>
  An event (a timeout firing, a key press, a call of \<open>skip\<close>, the unmount) is followed by
  the renders and effects it causes before the next event is taken: React commits a
  state update long before the 80 ms of a typing timeout have passed.
\<close>

type_synonym js_string = "nat list"

definition str :: "string \<Rightarrow> js_string" where
  "str cs = map of_char cs"

definition char_at :: "js_string \<Rightarrow> nat \<Rightarrow> js_string" where
  "char_at t i = (if i < length t then [t ! i] else str ''undefined'')"

subsection \<open>hooks/useSessionAnimation.ts\<close>

text \<open>
  The state of one component instance that calls \<open>useTypewriterAnimation\<close>: the three
  state variables, the three refs, and what React keeps between renders: the state
  values of the last render (the values every closure of that render sees), the
  dependency \<open>hasPlayed\<close> of the last run of the initialising effect, and whether the
  last run of the typewriter effect returned its cleanup. The typewriter effect depends
  on \<open>markAsPlayed\<close>, a new function at every render, so it runs after every render.
  The text, the storage key and the delay are fixed arguments of the hook.
\<close>

record hook =
  hasPlayed :: bool
  isInitialized :: bool
  displayText :: js_string
  h_isComplete :: bool
  timeoutRef :: "nat option"
  indexRef :: nat
  rendered :: "(bool \<times> js_string \<times> bool) option"
  init_deps :: "bool option"
  typing_cleanup :: bool
  h_timers :: "unit timers"
  h_storage :: session
  h_mounted :: bool

definition snapshot :: "hook \<Rightarrow> bool \<times> js_string \<times> bool" where
  "snapshot s = (hasPlayed s, displayText s, h_isComplete s)"

definition markAsPlayed :: "string \<Rightarrow> hook \<Rightarrow> hook" where
  "markAsPlayed key s = s\<lparr>h_storage := setItem key ''true'' (h_storage s), hasPlayed := True\<rparr>"

text \<open>The effect of \<open>useSessionAnimation\<close>.\<close>

definition session_effect :: "string \<Rightarrow> hook \<Rightarrow> hook" where
  "session_effect key s =
     (if \<not> isInitialized s
      then (let s1 = (if truthy (getItem key (h_storage s)) then s\<lparr>hasPlayed := True\<rparr> else s)
            in s1\<lparr>isInitialized := True\<rparr>)
      else s)"

text \<open>
  The two effects of \<open>useTypewriterAnimation\<close>; \<open>played\<close> and \<open>finished\<close> are the values
  of \<open>hasPlayed\<close> and \<open>isComplete\<close> in the render the effect belongs to, while the refs
  are read from the current state.
\<close>

definition init_effect :: "js_string \<Rightarrow> bool \<Rightarrow> hook \<Rightarrow> hook" where
  "init_effect text played s =
     (if played then s\<lparr>displayText := text, h_isComplete := True, indexRef := length text\<rparr>
      else s)"

definition typewriter_effect :: "js_string \<Rightarrow> string \<Rightarrow> bool \<Rightarrow> bool \<Rightarrow> hook \<Rightarrow> hook" where
  "typewriter_effect text key played finished s =
     (if played \<or> finished then s\<lparr>typing_cleanup := False\<rparr>
      else if indexRef s < length text
      then (let (i, t) = setTimeout () (h_timers s)
            in s\<lparr>timeoutRef := Some i, h_timers := t, typing_cleanup := True\<rparr>)
      else if indexRef s = length text
      then markAsPlayed key (s\<lparr>h_isComplete := True, typing_cleanup := False\<rparr>)
      else s\<lparr>typing_cleanup := False\<rparr>)"

definition typewriter_cleanup :: "hook \<Rightarrow> hook" where
  "typewriter_cleanup s =
     (if typing_cleanup s
      then (case timeoutRef s of
              None \<Rightarrow> s
            | Some i \<Rightarrow> s\<lparr>h_timers := clearTimeout i (h_timers s)\<rparr>)
      else s)"

text \<open>
  One render and commit: the cleanup of the typewriter effect, then the effects in the
  order of their declaration; the session effect runs at the first render only, the
  initialising effect when \<open>hasPlayed\<close> has changed since its last run.
\<close>

definition hook_pass :: "js_string \<Rightarrow> string \<Rightarrow> hook \<Rightarrow> hook" where
  "hook_pass text key s =
     (let played = hasPlayed s;
          finished = h_isComplete s;
          first = (rendered s = None);
          s0 = s\<lparr>rendered := Some (snapshot s)\<rparr>;
          s1 = typewriter_cleanup s0;
          s2 = (if first then session_effect key s1 else s1);
          s3 = (if init_deps s2 = Some played then s2
                else (init_effect text played s2)\<lparr>init_deps := Some played\<rparr>)
      in typewriter_effect text key played finished s3)"

text \<open>React renders again as long as the state differs from the one last rendered.\<close>

definition unsettled :: "js_string \<Rightarrow> hook \<Rightarrow> nat" where
  "unsettled text s =
     2 * ((if hasPlayed s then 0 else 1) + (if h_isComplete s then 0 else 1)
          + (if displayText s = text then 0 else 1))
     + (if rendered s = Some (snapshot s) then 0 else 1)"

function hook_commit :: "js_string \<Rightarrow> string \<Rightarrow> hook \<Rightarrow> hook" where
  "hook_commit text key s =
     (if rendered s = Some (snapshot s) then s else hook_commit text key (hook_pass text key s))"
  by pat_completeness auto
termination
proof (relation "measure (\<lambda>(text, key, s). unsettled text s)")
  show "wf (measure (\<lambda>(text, key, s). unsettled text s))"
    by simp
next
  fix tx :: js_string and key :: string and s :: hook
  assume stale: "rendered s \<noteq> Some (snapshot s)"
  define a where "a = typewriter_cleanup (s\<lparr>rendered := Some (snapshot s)\<rparr>)"
  define b where "b = (if rendered s = None then session_effect key a else a)"
  define c where "c = (if init_deps b = Some (hasPlayed s) then b
                       else (init_effect tx (hasPlayed s) b)\<lparr>init_deps := Some (hasPlayed s)\<rparr>)"
  define d where "d = typewriter_effect tx key (hasPlayed s) (h_isComplete s) c"
  have pass: "hook_pass tx key s = d"
    by (simp add: hook_pass_def Let_def a_def b_def c_def d_def)
  have a: "rendered a = Some (snapshot s)" "hasPlayed a = hasPlayed s"
    "h_isComplete a = h_isComplete s" "displayText a = displayText s"
    by (simp_all add: a_def typewriter_cleanup_def split: option.split)
  have b: "rendered b = rendered a" "hasPlayed a \<longrightarrow> hasPlayed b"
    "h_isComplete b = h_isComplete a" "displayText b = displayText a"
    by (simp_all add: b_def session_effect_def Let_def)
  have c: "rendered c = rendered b" "hasPlayed c = hasPlayed b"
    "h_isComplete b \<longrightarrow> h_isComplete c" "displayText c = displayText b \<or> displayText c = tx"
    by (simp_all add: c_def init_effect_def)
  have d: "rendered d = rendered c" "hasPlayed c \<longrightarrow> hasPlayed d"
    "h_isComplete c \<longrightarrow> h_isComplete d" "displayText d = displayText c"
    by (simp_all add: d_def typewriter_effect_def markAsPlayed_def setTimeout_def Let_def)
  have r: "rendered d = Some (snapshot s)"
    using a b c d by simp
  have p: "hasPlayed s \<longrightarrow> hasPlayed d"
    using a b c d by simp
  have f: "h_isComplete s \<longrightarrow> h_isComplete d"
    using a b c d by simp
  have t: "displayText d = displayText s \<or> displayText d = tx"
    using a b c d by auto
  have "unsettled tx d < unsettled tx s"
    using stale r p f t unfolding unsettled_def snapshot_def
    by (auto split: if_splits)
  then show "((tx, key, hook_pass tx key s), (tx, key, s)) \<in> measure (\<lambda>(text, key, s). unsettled text s)"
    by (simp add: pass)
qed

declare hook_commit.simps [simp del]

text \<open>The hook at the mount of its component, with the session storage of that moment.\<close>

definition useTypewriterAnimation :: "js_string \<Rightarrow> string \<Rightarrow> session \<Rightarrow> hook" where
  "useTypewriterAnimation text key st =
     hook_commit text key
       \<lparr>hasPlayed = False, isInitialized = False, displayText = [], h_isComplete = False,
        timeoutRef = None, indexRef = 0, rendered = None, init_deps = None,
        typing_cleanup = False, h_timers = no_timers, h_storage = st, h_mounted = True\<rparr>"

text \<open>
  The callback of the typewriter timeout:
  \<open>setDisplayText(prev => prev + text[indexRef.current]); indexRef.current++\<close>.
  React runs the updater function either at the call, before the increment, or at the
  next render, after it; \<open>eager\<close> says which. An unmounted component ignores the state
  update.
\<close>

definition timer_callback :: "js_string \<Rightarrow> string \<Rightarrow> bool \<Rightarrow> hook \<Rightarrow> hook" where
  "timer_callback text key eager s =
     (let k = (if eager then indexRef s else Suc (indexRef s));
          s1 = s\<lparr>indexRef := Suc (indexRef s)\<rparr>
      in if h_mounted s
         then hook_commit text key (s1\<lparr>displayText := displayText s @ char_at text k\<rparr>)
         else s1)"

definition hook_fire :: "js_string \<Rightarrow> string \<Rightarrow> nat \<Rightarrow> bool \<Rightarrow> hook \<Rightarrow> hook" where
  "hook_fire text key i eager s =
     (case pending (h_timers s) i of
        None \<Rightarrow> s
      | Some u \<Rightarrow> timer_callback text key eager (s\<lparr>h_timers := clearTimeout i (h_timers s)\<rparr>))"

text \<open>
  \<open>skip\<close>, the function returned by the last render: its \<open>isComplete\<close> is the one of
  that render. Called after the unmount it still clears the timeout, moves the index
  and writes the flag, while React ignores its three state updates and renders nothing.
\<close>

definition hook_skip :: "js_string \<Rightarrow> string \<Rightarrow> hook \<Rightarrow> hook" where
  "hook_skip text key s =
     (case rendered s of
        None \<Rightarrow> s
      | Some r \<Rightarrow>
          if snd (snd r) then s
          else
            let s1 = (case timeoutRef s of
                        None \<Rightarrow> s
                      | Some i \<Rightarrow> s\<lparr>h_timers := clearTimeout i (h_timers s)\<rparr>)
            in if h_mounted s
               then hook_commit text key
                      (markAsPlayed key
                         (s1\<lparr>displayText := text, indexRef := length text, h_isComplete := True\<rparr>))
               else s1\<lparr>indexRef := length text,
                       h_storage := setItem key ''true'' (h_storage s1)\<rparr>)"

definition hook_unmount :: "hook \<Rightarrow> hook" where
  "hook_unmount s = (typewriter_cleanup s)\<lparr>h_mounted := False\<rparr>"

text \<open>
  The events of the hook: one of its timeouts fires, \<open>skip\<close> is called, the component
  unmounts. After the unmount \<open>skip\<close> can still be called by whoever holds it, and a
  timeout would still fire if one were pending.
\<close>

datatype hook_event = HookTimer nat bool | HookSkip | HookUnmount

fun hook_step :: "js_string \<Rightarrow> string \<Rightarrow> hook_event \<Rightarrow> hook \<Rightarrow> hook" where
  "hook_step text key (HookTimer i eager) s = hook_fire text key i eager s"
| "hook_step text key HookSkip s = hook_skip text key s"
| "hook_step text key HookUnmount s = (if h_mounted s then hook_unmount s else s)"

fun hook_run :: "js_string \<Rightarrow> string \<Rightarrow> hook_event list \<Rightarrow> hook \<Rightarrow> hook" where
  "hook_run text key [] s = s"
| "hook_run text key (e # es) s = hook_run text key es (hook_step text key e s)"

subsection \<open>components/TerminalPrompt.tsx\<close>

text \<open>The literal of the source: the prompt, then the code units U+00E2, U+2013, U+02C6.\<close>

definition fullText :: js_string where
  "fullText = str ''user@terminal:~$ '' @ [226, 8211, 710]"

text \<open>
  The component's three state variables, and what React keeps between renders:
  \<open>currentIndex\<close> and \<open>hasPlayed\<close> of the last render (the dependencies of the typing
  effect, and the values its closures see), the timeout its cleanup clears, the
  \<open>keydown\<close> handler on the window with the \<open>hasPlayed\<close> its closure holds, the pending
  timeouts (each with the \<open>currentIndex\<close> of its closure) and session storage.
\<close>

record prompt =
  p_displayText :: js_string
  currentIndex :: nat
  p_hasPlayed :: bool
  p_rendered :: "(nat \<times> bool) option"
  p_cleanup :: "nat option"
  key_handler :: "bool option"
  p_timers :: "nat timers"
  p_storage :: session
  p_mounted :: bool

definition typing_effect :: "nat \<Rightarrow> bool \<Rightarrow> prompt \<Rightarrow> prompt" where
  "typing_effect idx played s =
     (if truthy (getItem ''promptPlayed'' (p_storage s))
      then s\<lparr>p_displayText := fullText, currentIndex := length fullText, p_hasPlayed := True,
             p_cleanup := None\<rparr>
      else if idx < length fullText
      then (let (i, t) = setTimeout idx (p_timers s)
            in s\<lparr>p_timers := t, p_cleanup := Some i\<rparr>)
      else if idx = length fullText \<and> \<not> played
      then s\<lparr>p_storage := setItem ''promptPlayed'' ''true'' (p_storage s), p_hasPlayed := True,
             p_cleanup := None\<rparr>
      else s\<lparr>p_cleanup := None\<rparr>)"

definition typing_cleanup_run :: "prompt \<Rightarrow> prompt" where
  "typing_cleanup_run s =
     (case p_cleanup s of
        None \<Rightarrow> s
      | Some i \<Rightarrow> s\<lparr>p_timers := clearTimeout i (p_timers s)\<rparr>)"

text \<open>
  One render and commit. It happens only when \<open>currentIndex\<close> or \<open>hasPlayed\<close> differ
  from the last render, so the typing effect runs again; the key effect installs a new
  handler when \<open>hasPlayed\<close> differs.
\<close>

definition prompt_pass :: "prompt \<Rightarrow> prompt" where
  "prompt_pass s =
     (let idx = currentIndex s;
          played = p_hasPlayed s;
          key_stale = (case p_rendered s of None \<Rightarrow> True | Some r \<Rightarrow> snd r \<noteq> played);
          s0 = typing_cleanup_run (s\<lparr>p_rendered := Some (idx, played)\<rparr>);
          s1 = typing_effect idx played s0
      in if key_stale then s1\<lparr>key_handler := Some played\<rparr> else s1)"

definition prompt_unsettled :: "prompt \<Rightarrow> nat" where
  "prompt_unsettled s =
     2 * ((if p_hasPlayed s then 0 else 1) + (if currentIndex s = length fullText then 0 else 1))
     + (if p_rendered s = Some (currentIndex s, p_hasPlayed s) then 0 else 1)"

function prompt_commit :: "prompt \<Rightarrow> prompt" where
  "prompt_commit s =
     (if p_rendered s = Some (currentIndex s, p_hasPlayed s) then s
      else prompt_commit (prompt_pass s))"
  by pat_completeness auto
termination
proof (relation "measure prompt_unsettled")
  show "wf (measure prompt_unsettled)"
    by simp
next
  fix s :: prompt
  assume stale: "p_rendered s \<noteq> Some (currentIndex s, p_hasPlayed s)"
  define a where "a = typing_cleanup_run (s\<lparr>p_rendered := Some (currentIndex s, p_hasPlayed s)\<rparr>)"
  define b where "b = typing_effect (currentIndex s) (p_hasPlayed s) a"
  have a: "p_rendered a = Some (currentIndex s, p_hasPlayed s)" "currentIndex a = currentIndex s"
    "p_hasPlayed a = p_hasPlayed s"
    by (simp_all add: a_def typing_cleanup_run_def split: option.split)
  have b: "p_rendered b = p_rendered a"
    "(currentIndex b = currentIndex a \<and> p_hasPlayed b = p_hasPlayed a)
     \<or> (currentIndex b = length fullText \<and> p_hasPlayed b)"
    using a by (simp_all add: b_def typing_effect_def setTimeout_def Let_def)
  have pass: "p_rendered (prompt_pass s) = p_rendered b"
    "currentIndex (prompt_pass s) = currentIndex b" "p_hasPlayed (prompt_pass s) = p_hasPlayed b"
    by (simp_all add: prompt_pass_def Let_def a_def b_def)
  have "prompt_unsettled (prompt_pass s) < prompt_unsettled s"
    using stale a b unfolding prompt_unsettled_def pass
    by (auto split: if_splits)
  then show "(prompt_pass s, s) \<in> measure prompt_unsettled"
    by simp
qed

declare prompt_commit.simps [simp del]

definition TerminalPrompt :: "session \<Rightarrow> prompt" where
  "TerminalPrompt st =
     prompt_commit
       \<lparr>p_displayText = [], currentIndex = 0, p_hasPlayed = False, p_rendered = None,
        p_cleanup = None, key_handler = None, p_timers = no_timers, p_storage = st,
        p_mounted = True\<rparr>"

text \<open>A timeout fires: its closure appends \<open>fullText[currentIndex]\<close> of its render.\<close>

definition prompt_fire :: "nat \<Rightarrow> prompt \<Rightarrow> prompt" where
  "prompt_fire i s =
     (case pending (p_timers s) i of
        None \<Rightarrow> s
      | Some c \<Rightarrow>
          let s1 = s\<lparr>p_timers := clearTimeout i (p_timers s)\<rparr>
          in if p_mounted s1
             then prompt_commit (s1\<lparr>p_displayText := p_displayText s1 @ char_at fullText c,
                                    currentIndex := Suc (currentIndex s1)\<rparr>)
             else s1)"

definition handleKeyPress :: "prompt \<Rightarrow> prompt" where
  "handleKeyPress s =
     (case key_handler s of
        None \<Rightarrow> s
      | Some played \<Rightarrow>
          if \<not> played
          then prompt_commit
                 (s\<lparr>p_displayText := fullText, currentIndex := length fullText,
                    p_storage := setItem ''promptPlayed'' ''true'' (p_storage s),
                    p_hasPlayed := True\<rparr>)
          else s)"

definition prompt_unmount :: "prompt \<Rightarrow> prompt" where
  "prompt_unmount s = (typing_cleanup_run s)\<lparr>key_handler := None, p_mounted := False\<rparr>"

datatype prompt_event = PromptTimer nat | PromptKey | PromptUnmount

fun prompt_step :: "prompt_event \<Rightarrow> prompt \<Rightarrow> prompt" where
  "prompt_step (PromptTimer i) s = prompt_fire i s"
| "prompt_step PromptKey s = handleKeyPress s"
| "prompt_step PromptUnmount s = (if p_mounted s then prompt_unmount s else s)"

fun prompt_run :: "prompt_event list \<Rightarrow> prompt \<Rightarrow> prompt" where
  "prompt_run [] s = s"
| "prompt_run (e # es) s = prompt_run es (prompt_step e s)"

section \<open>Invariants of the React components\<close>

text \<open>
  What holds of the hook's state between renders and at every point of an event: the
  index is within the text; a pending timeout is the one in \<open>timeoutRef\<close>, with its
  cleanup registered and the index short of the end; timeout ids are fresh; once the
  initialising effect has run with \<open>hasPlayed\<close> the animation is complete; \<open>hasPlayed\<close>
  implies the stored flag; \<open>isComplete\<close> implies \<open>hasPlayed\<close>.
\<close>

definition hook_inv :: "js_string \<Rightarrow> string \<Rightarrow> hook \<Rightarrow> bool" where
  "hook_inv tx key s \<longleftrightarrow>
     indexRef s \<le> length tx
     \<and> (\<forall>i. pending (h_timers s) i \<noteq> None \<longrightarrow>
            timeoutRef s = Some i \<and> typing_cleanup s \<and> indexRef s < length tx)
     \<and> (\<forall>i. next_id (h_timers s) \<le> i \<longrightarrow> pending (h_timers s) i = None)
     \<and> (init_deps s = Some True \<longrightarrow>
            h_isComplete s \<and> indexRef s = length tx \<and> displayText s = tx)
     \<and> (\<forall>r. rendered s = Some r \<longrightarrow> init_deps s = Some (fst r))
     \<and> (hasPlayed s \<longrightarrow> truthy (getItem key (h_storage s)))
     \<and> (h_isComplete s \<longrightarrow> hasPlayed s)
     \<and> (\<forall>r. rendered s = Some r \<longrightarrow> fst r \<or> snd (snd r) \<longrightarrow> \<not> typing_cleanup s)"

text \<open>
  What the typewriter effect of the last render has done: a render that was neither
  played nor complete and found the index at the end has set \<open>isComplete\<close>.
\<close>

definition hook_done :: "js_string \<Rightarrow> hook \<Rightarrow> bool" where
  "hook_done tx s \<longleftrightarrow>
     (\<forall>r. rendered s = Some r \<longrightarrow> \<not> fst r \<longrightarrow> \<not> snd (snd r) \<longrightarrow>
          indexRef s = length tx \<longrightarrow> h_isComplete s)"

text \<open>The state after the last render: settled, and without timeouts once unmounted.\<close>

definition hook_good :: "js_string \<Rightarrow> string \<Rightarrow> hook \<Rightarrow> bool" where
  "hook_good tx key s \<longleftrightarrow>
     hook_inv tx key s \<and> hook_done tx s \<and> rendered s = Some (snapshot s)
     \<and> (\<not> h_mounted s \<longrightarrow> pending (h_timers s) = Map.empty)"

text \<open>
  The same for \<open>TerminalPrompt\<close>: the index is within the text; a pending timeout is the
  one the cleanup clears, and its closure's index is in range; \<open>hasPlayed\<close> implies the
  stored flag; the installed key handler holds the \<open>hasPlayed\<close> of the last render; and
  what a run of the typing effect leaves behind.
\<close>

definition prompt_inv :: "prompt \<Rightarrow> bool" where
  "prompt_inv s \<longleftrightarrow>
     currentIndex s \<le> length fullText
     \<and> (\<forall>i c. pending (p_timers s) i = Some c \<longrightarrow> p_cleanup s = Some i \<and> c < length fullText)
     \<and> (\<forall>i. next_id (p_timers s) \<le> i \<longrightarrow> pending (p_timers s) i = None)
     \<and> (p_hasPlayed s \<longrightarrow> truthy (getItem ''promptPlayed'' (p_storage s)))
     \<and> (p_mounted s \<longrightarrow> (\<forall>r. p_rendered s = Some r \<longrightarrow> key_handler s = Some (snd r)))
     \<and> (p_rendered s \<noteq> None \<longrightarrow> truthy (getItem ''promptPlayed'' (p_storage s)) \<longrightarrow>
            currentIndex s = length fullText \<and> p_hasPlayed s)
     \<and> (p_rendered s = Some (length fullText, False) \<longrightarrow>
            truthy (getItem ''promptPlayed'' (p_storage s)))"

text \<open>After a render every pending timeout holds the current index in its closure.\<close>

definition prompt_done :: "prompt \<Rightarrow> bool" where
  "prompt_done s \<longleftrightarrow> (\<forall>i c. pending (p_timers s) i = Some c \<longrightarrow> c = currentIndex s)"

definition prompt_good :: "prompt \<Rightarrow> bool" where
  "prompt_good s \<longleftrightarrow>
     prompt_inv s \<and> prompt_done s \<and> p_rendered s = Some (currentIndex s, p_hasPlayed s)
     \<and> (\<not> p_mounted s \<longrightarrow> pending (p_timers s) = Map.empty \<and> key_handler s = None)"

text \<open>
  The prompt while it types, \<open>k\<close> characters in: not yet played, mounted, the storage
  untouched, and the timeout for the next character pending under the id \<open>k + 1\<close>.
\<close>

definition typing_at :: "session \<Rightarrow> nat \<Rightarrow> prompt \<Rightarrow> bool" where
  "typing_at st k s \<longleftrightarrow>
     prompt_good s \<and> currentIndex s = k \<and> \<not> p_hasPlayed s \<and> p_mounted s \<and> p_storage s = st
     \<and> pending (p_timers s) (Suc k) = Some k \<and> next_id (p_timers s) = k + 2"

text \<open>
  The same without the completion of the last render once the component is unmounted:
  this is what a \<open>skip\<close> called after the unmount preserves.
\<close>

definition hook_safe :: "js_string \<Rightarrow> string \<Rightarrow> hook \<Rightarrow> bool" where
  "hook_safe tx key s \<longleftrightarrow>
     hook_inv tx key s \<and> rendered s = Some (snapshot s)
     \<and> (\<not> h_mounted s \<longrightarrow> pending (h_timers s) = Map.empty)
     \<and> (h_mounted s \<longrightarrow> hook_done tx s)"

text \<open>A hook that has come to rest: nothing pending, and complete or unmounted.\<close>

definition hook_quiet :: "js_string \<Rightarrow> string \<Rightarrow> hook \<Rightarrow> bool" where
  "hook_quiet tx key s \<longleftrightarrow>
     hook_safe tx key s \<and> pending (h_timers s) = Map.empty \<and> (h_isComplete s \<or> \<not> h_mounted s)"

section \<open>Sample inputs\<close>

text \<open>
  Concrete inputs for the runs evaluated below: a page whose only element is the intro
  container, an empty session storage, a session in which a flag is already set, an
  element with some content, and a short text.
\<close>

definition demo_page :: dom where
  "demo_page = \<lparr>attached = {''intro''}, nav_links = (\<lambda>x. 0)\<rparr>"

definition empty_page :: dom where
  "empty_page = \<lparr>attached = {}, nav_links = (\<lambda>x. 0)\<rparr>"

definition fresh_session :: session where
  "fresh_session = \<lparr>items = Map.empty, setItem_log = []\<rparr>"

definition played_session :: "string \<Rightarrow> session" where
  "played_session key = \<lparr>items = [key \<mapsto> ''true''], setItem_log = []\<rparr>"

definition demo_element :: "nat element" where
  "demo_element = \<lparr>textContent = [62], data_text = None\<rparr>"

definition demo_text :: js_string where
  "demo_text = str ''ok''"

definition demo_intro_config :: intro_config where
  "demo_intro_config = intro_defaults\<lparr>introId := Some ''intro'', onSkip := True, intro_onComplete := True\<rparr>"

section \<open>Properties of the typewriter utility\<close>

text \<open>
  C8: called with an empty or missing text and an element, \<open>typeWriter\<close> and
  \<open>typeWriterCancellable\<close> resolve at once: the promise is resolved, the element (its
  \<open>textContent\<close> and its \<open>data-text\<close> attribute) is the one passed in, no callback has
  fired, and neither the start-delay timeout nor the interval is pending.
\<close>

theorem falsy_text_resolves_at_once:
  assumes "falsy_text text"
  shows "typeWriter text (Some el) cfg = Inr ((typing_init el)\<lparr>result := Resolved\<rparr>)
       \<and> typeWriterCancellable text (Some el) cfg = Inr ((typing_init el)\<lparr>result := Resolved\<rparr>)
       \<and> target ((typing_init el)\<lparr>result := Resolved\<rparr>) = el
       \<and> fired ((typing_init el)\<lparr>result := Resolved\<rparr>) = ([] :: 'a callback list)
       \<and> \<not> interval ((typing_init el)\<lparr>result := Resolved\<rparr>)
       \<and> \<not> startPending ((typing_init el)\<lparr>result := Resolved\<rparr>)
       \<and> result ((typing_init el)\<lparr>result := Resolved\<rparr>) = Resolved"
  using assms by (simp add: typeWriter_def typeWriterCancellable_def typing_init_def)

theorem falsy_text_resolves_at_once_witness:
  "falsy_text (Some ([] :: nat list))
   \<and> typeWriter (Some []) (Some \<lparr>textContent = [7 :: nat], data_text = None\<rparr>) DEFAULT_CONFIG
       = Inr ((typing_init \<lparr>textContent = [7], data_text = None\<rparr>)\<lparr>result := Resolved\<rparr>)
   \<and> textContent (target ((typing_init \<lparr>textContent = [7 :: nat], data_text = None\<rparr>)\<lparr>result := Resolved\<rparr>)) = [7]"
  using falsy_text_resolves_at_once [of "Some ([] :: nat list)" "\<lparr>textContent = [7 :: nat], data_text = None\<rparr>" DEFAULT_CONFIG]
  by (simp add: falsy_text_def)

section \<open>Properties of the progress bar\<close>

lemma rounding_id: "rounding (\<lambda>x. x)"
  by (simp add: rounding_def)

lemma rounding_int:
  assumes "rounding fl" "\<bar>k\<bar> \<le> 2 ^ 53"
  shows "fl (real_of_int k) = real_of_int k"
  using assms unfolding rounding_def by blast

lemma rounding_mono:
  assumes "rounding fl" "x \<le> y"
  shows "fl x \<le> fl y"
  using assms unfolding rounding_def by blast

lemma rounding_zero: "rounding fl \<Longrightarrow> fl 0 = 0"
  using rounding_int [of fl 0] by simp

lemma rounding_one: "rounding fl \<Longrightarrow> fl 1 = 1"
  using rounding_int [of fl 1] by simp

lemma progress_timer_range:
  assumes "rounding fl" "0 \<le> currentPercent s" "currentPercent s \<le> percentage s"
  shows "0 \<le> currentPercent (progress_timer fl s)
       \<and> currentPercent (progress_timer fl s) \<le> percentage (progress_timer fl s)
       \<and> percentage (progress_timer fl s) = percentage s"
proof -
  have "fl 0 \<le> fl (currentPercent s + 3)"
    using assms(1) by (rule rounding_mono) (use assms(2) in simp)
  then have "0 \<le> fl (currentPercent s + 3)"
    using rounding_zero [OF assms(1)] by simp
  with assms(2,3) show ?thesis
    by (simp add: progress_timer_def)
qed

lemma progress_timers_range:
  assumes "rounding fl"
  shows "0 \<le> currentPercent s \<Longrightarrow> currentPercent s \<le> percentage s \<Longrightarrow>
         0 \<le> currentPercent (progress_run fl (replicate n BarTimer) s)
         \<and> currentPercent (progress_run fl (replicate n BarTimer) s) \<le> percentage s"
proof (induction n arbitrary: s)
  case 0
  then show ?case by simp
next
  case (Suc n)
  from progress_timer_range [OF assms Suc.prems]
  have a: "0 \<le> currentPercent (progress_timer fl s)"
    and b: "currentPercent (progress_timer fl s) \<le> percentage (progress_timer fl s)"
    and c: "percentage (progress_timer fl s) = percentage s"
    by simp_all
  from Suc.IH [OF a b] c show ?case
    by simp
qed

lemma filled_range:
  assumes "rounding fl" "0 \<le> c" "c \<le> 100" "0 \<le> w" "w \<le> 2 ^ 53"
  shows "0 \<le> \<lfloor>fl (fl (c / 100) * real_of_int w)\<rfloor> \<and> \<lfloor>fl (fl (c / 100) * real_of_int w)\<rfloor> \<le> w"
proof -
  have w: "fl (real_of_int w) = real_of_int w"
    using assms(1) by (rule rounding_int) (use assms(4,5) in simp)
  have "fl 0 \<le> fl (c / 100)"
    using assms(1) by (rule rounding_mono) (use assms(2) in simp)
  then have q0: "0 \<le> fl (c / 100)"
    using rounding_zero [OF assms(1)] by simp
  have "fl (c / 100) \<le> fl 1"
    using assms(1) by (rule rounding_mono) (use assms(3) in simp)
  then have q1: "fl (c / 100) \<le> 1"
    using rounding_one [OF assms(1)] by simp
  have p0: "0 \<le> fl (c / 100) * real_of_int w"
    using q0 assms(4) by simp
  have "fl (c / 100) * real_of_int w \<le> 1 * real_of_int w"
    using q1 assms(4) by (intro mult_right_mono) simp_all
  then have p1: "fl (c / 100) * real_of_int w \<le> real_of_int w"
    by simp
  have "fl 0 \<le> fl (fl (c / 100) * real_of_int w)"
    using assms(1) p0 by (rule rounding_mono)
  then have r0: "0 \<le> fl (fl (c / 100) * real_of_int w)"
    using rounding_zero [OF assms(1)] by simp
  have "fl (fl (c / 100) * real_of_int w) \<le> fl (real_of_int w)"
    using assms(1) p1 by (rule rounding_mono)
  then have r1: "fl (fl (c / 100) * real_of_int w) \<le> real_of_int w"
    using w by simp
  from r0 r1 show ?thesis
    by (simp add: le_floor_iff floor_le_iff)
qed

lemma trunc_int: "trunc (real_of_int k) = k"
  by (simp add: trunc_def)

lemma bar_cells:
  assumes "rounding fl" "0 \<le> c" "c \<le> 100" "0 \<le> w" "w \<le> 2 ^ 53" "w \<le> int limit"
  shows "bar fl limit c (real_of_int w) =
           Inr (replicate (nat \<lfloor>fl (fl (c / 100) * real_of_int w)\<rfloor>) Full
                @ replicate (nat (w - \<lfloor>fl (fl (c / 100) * real_of_int w)\<rfloor>)) Blank)"
proof -
  define f where "f = \<lfloor>fl (fl (c / 100) * real_of_int w)\<rfloor>"
  from filled_range [OF assms(1-5)] have f: "0 \<le> f" "f \<le> w"
    by (simp_all add: f_def)
  have fi: "filled fl c (real_of_int w) = real_of_int f"
    by (simp add: filled_def f_def)
  have "\<bar>w - f\<bar> \<le> 2 ^ 53"
    using f assms(5) by simp
  from rounding_int [OF assms(1) this]
  have em: "empty fl c (real_of_int w) = real_of_int (w - f)"
    by (simp add: empty_def fi)
  have r1: "repeat limit Full (real_of_int f) = Inr (replicate (nat f) Full)"
    using f assms(6) by (simp add: repeat_def trunc_int Let_def)
  have r2: "repeat limit Blank (real_of_int (w - f)) = Inr (replicate (nat (w - f)) Blank)"
    using f assms(6) unfolding repeat_def trunc_int Let_def by simp
  show ?thesis
    unfolding bar_def fi em r1 r2 f_def [symmetric] by simp
qed

lemma filled_empty:
  assumes "rounding fl" "0 \<le> c" "c \<le> 100" "0 \<le> w" "w \<le> 2 ^ 53"
  shows "filled fl c (real_of_int w) = real_of_int \<lfloor>fl (fl (c / 100) * real_of_int w)\<rfloor>
       \<and> empty fl c (real_of_int w) = real_of_int (w - \<lfloor>fl (fl (c / 100) * real_of_int w)\<rfloor>)"
proof -
  define f where "f = \<lfloor>fl (fl (c / 100) * real_of_int w)\<rfloor>"
  from filled_range [OF assms] have f: "0 \<le> f" "f \<le> w"
    by (simp_all add: f_def)
  have fi: "filled fl c (real_of_int w) = real_of_int f"
    by (simp add: filled_def f_def)
  have "\<bar>w - f\<bar> \<le> 2 ^ 53"
    using f assms(5) by simp
  from rounding_int [OF assms(1) this]
  have em: "empty fl c (real_of_int w) = real_of_int (w - f)"
    by (simp add: empty_def fi)
  from fi em show ?thesis
    unfolding f_def by (intro conjI)
qed

text \<open>
  C9, as the code has it: while the percentage stays the one the bar was mounted with,
  between 0 and 100, and for an integer width of at least 0 (among the integers that
  doubles hold exactly, and within the engine's limit on the length of a string), the
  animated percent starts at 0 and never exceeds the percentage after any number of
  timer firings; \<open>filled\<close> lies between 0 and the width, \<open>filled\<close> plus \<open>empty\<close> is the
  width, and the bar is rendered: \<open>filled\<close> full cells followed by \<open>empty\<close> empty cells,
  \<open>width\<close> cells in all. This holds for every rounding of the arithmetic that is
  monotone and exact on those integers, as the rounding of doubles is.
\<close>

theorem progress_bar_width:
  assumes "rounding fl" "0 \<le> p" "p \<le> 100" "0 \<le> w" "w \<le> 2 ^ 53" "w \<le> int limit"
  shows "currentPercent (ProgressBar p) = 0
       \<and> currentPercent (progress_run fl (replicate n BarTimer) (ProgressBar p)) \<le> p
       \<and> 0 \<le> filled fl (currentPercent (progress_run fl (replicate n BarTimer) (ProgressBar p))) (real_of_int w)
       \<and> filled fl (currentPercent (progress_run fl (replicate n BarTimer) (ProgressBar p))) (real_of_int w)
           \<le> real_of_int w
       \<and> filled fl (currentPercent (progress_run fl (replicate n BarTimer) (ProgressBar p))) (real_of_int w)
           + empty fl (currentPercent (progress_run fl (replicate n BarTimer) (ProgressBar p))) (real_of_int w)
           = real_of_int w
       \<and> bar fl limit (currentPercent (progress_run fl (replicate n BarTimer) (ProgressBar p))) (real_of_int w)
           = Inr (replicate
                    (nat \<lfloor>filled fl (currentPercent (progress_run fl (replicate n BarTimer) (ProgressBar p)))
                            (real_of_int w)\<rfloor>) Full
                  @ replicate
                    (nat \<lfloor>empty fl (currentPercent (progress_run fl (replicate n BarTimer) (ProgressBar p)))
                            (real_of_int w)\<rfloor>) Blank)
       \<and> (\<exists>b. bar fl limit (currentPercent (progress_run fl (replicate n BarTimer) (ProgressBar p)))
                  (real_of_int w) = Inr b \<and> int (length b) = w)"
proof -
  define c where "c = currentPercent (progress_run fl (replicate n BarTimer) (ProgressBar p))"
  define f where "f = \<lfloor>fl (fl (c / 100) * real_of_int w)\<rfloor>"
  have "0 \<le> currentPercent (ProgressBar p)" "currentPercent (ProgressBar p) \<le> percentage (ProgressBar p)"
    using assms(2) by (simp_all add: ProgressBar_def)
  from progress_timers_range [OF assms(1) this, of n]
  have c0: "0 \<le> c" and cp: "c \<le> p"
    by (simp_all add: c_def ProgressBar_def)
  from cp assms(3) have c1: "c \<le> 100"
    by simp
  from filled_range [OF assms(1) c0 c1 assms(4,5)] have f: "0 \<le> f" "f \<le> w"
    by (simp_all add: f_def)
  from filled_empty [OF assms(1) c0 c1 assms(4,5)]
  have fi: "filled fl c (real_of_int w) = real_of_int f"
    and em: "empty fl c (real_of_int w) = real_of_int (w - f)"
    by (simp_all add: f_def)
  from bar_cells [OF assms(1) c0 c1 assms(4,5,6)]
  have bc: "bar fl limit c (real_of_int w) = Inr (replicate (nat f) Full @ replicate (nat (w - f)) Blank)"
    by (simp add: f_def)
  have z: "currentPercent (ProgressBar p) = 0"
    by (simp add: ProgressBar_def)
  have 3: "0 \<le> filled fl c (real_of_int w)"
    using f(1) by (simp add: fi)
  have 4: "filled fl c (real_of_int w) \<le> real_of_int w"
    using f(2) by (simp add: fi)
  have 5: "filled fl c (real_of_int w) + empty fl c (real_of_int w) = real_of_int w"
    by (simp add: fi em)
  have 6: "bar fl limit c (real_of_int w)
      = Inr (replicate (nat \<lfloor>filled fl c (real_of_int w)\<rfloor>) Full
             @ replicate (nat \<lfloor>empty fl c (real_of_int w)\<rfloor>) Blank)"
    unfolding fi em floor_of_int by (rule bc)
  have 7: "\<exists>b. bar fl limit c (real_of_int w) = Inr b \<and> int (length b) = w"
    using f by (simp add: bc)
  from z cp 3 4 5 6 7 show ?thesis
    unfolding c_def by (intro conjI)
qed

lemma exact_timers:
  "currentPercent s \<le> percentage s \<Longrightarrow>
   currentPercent (progress_run (\<lambda>x. x) (replicate n BarTimer) s)
     = min (currentPercent s + 3 * real n) (percentage s)"
proof (induction n arbitrary: s)
  case 0
  then show ?case by simp
next
  case (Suc n)
  have le: "currentPercent (progress_timer (\<lambda>x. x) s) \<le> percentage (progress_timer (\<lambda>x. x) s)"
    using Suc.prems by (simp add: progress_timer_def)
  have p: "percentage (progress_timer (\<lambda>x. x) s) = percentage s"
    by (simp add: progress_timer_def)
  show ?case
    using Suc.IH [OF le] Suc.prems
    by (simp add: p) (simp add: progress_timer_def min_def)
qed

lemma demo_percent:
  "currentPercent (progress_run (\<lambda>x. x) (replicate 17 BarTimer) (ProgressBar 50)) = 50"
  by (subst exact_timers) (simp_all add: ProgressBar_def)

theorem progress_bar_width_witness:
  "rounding (\<lambda>x. x) \<and> (0::real) \<le> 50 \<and> (50::real) \<le> 100 \<and> (0::int) \<le> 10 \<and> (10::int) \<le> 2 ^ 53
   \<and> (10::int) \<le> int 536870888
   \<and> currentPercent (progress_run (\<lambda>x. x) (replicate 17 BarTimer) (ProgressBar 50)) = 50
   \<and> filled (\<lambda>x. x) (currentPercent (progress_run (\<lambda>x. x) (replicate 17 BarTimer) (ProgressBar 50))) 10 = 5
   \<and> bar (\<lambda>x. x) 536870888 (currentPercent (progress_run (\<lambda>x. x) (replicate 17 BarTimer) (ProgressBar 50))) 10
       = Inr (replicate 5 Full @ replicate 5 Blank)"
proof -
  have h: "(0::real) \<le> 50" "(50::real) \<le> 100" "(0::int) \<le> 10" "(10::int) \<le> 2 ^ 53"
    "(10::int) \<le> int 536870888"
    by simp_all
  have fe: "filled (\<lambda>x. x) 50 10 = 5" "empty (\<lambda>x. x) 50 10 = 5"
    by (simp_all add: filled_def empty_def)
  note t = progress_bar_width [OF rounding_id h, of 17, unfolded demo_percent]
  from t have "bar (\<lambda>x. x) 536870888 50 (real_of_int 10)
      = Inr (replicate (nat \<lfloor>filled (\<lambda>x. x) 50 (real_of_int 10)\<rfloor>) Full
             @ replicate (nat \<lfloor>empty (\<lambda>x. x) 50 (real_of_int 10)\<rfloor>) Blank)"
    by blast
  then have b: "bar (\<lambda>x. x) 536870888 50 10 = Inr (replicate 5 Full @ replicate 5 Blank)"
    by (simp add: fe)
  from h rounding_id demo_percent b fe(1) show ?thesis
    by (simp only: demo_percent)
qed

text \<open>
  C9 as stated fails. When the parent lowers the percentage, here from 50 to 3 after
  two firings, the animated percent stays at 6, above the target, for the timeout only
  ever raises it. And a width of 2.5 renders two cells: \<open>repeat\<close> truncates its count.
  Every number in these two runs is a double, so no rounding occurs.
\<close>

theorem progress_bar_overshoot_and_fraction:
  "percentage (progress_run (\<lambda>x. x) [BarTimer, BarTimer, BarProps 3, BarTimer] (ProgressBar 50)) = 3
   \<and> currentPercent (progress_run (\<lambda>x. x) [BarTimer, BarTimer, BarProps 3, BarTimer] (ProgressBar 50)) = 6
   \<and> bar (\<lambda>x. x) 536870888 (currentPercent (ProgressBar 50)) (5 / 2) = Inr [Blank, Blank]"
  by (simp add: progress_timer_def ProgressBar_def bar_def repeat_def filled_def empty_def trunc_def Let_def
      numeral_2_eq_2)

section \<open>Properties of the glitch animator\<close>

lemma scheduleNextGlitch_stopped: "\<not> isRunning a \<Longrightarrow> scheduleNextGlitch a = a"
  by (simp add: scheduleNextGlitch_def)

lemma stop_fields:
  "\<not> isRunning (stop a)" "scheduled (stop a) = scheduled a" "executed (stop a) = executed a"
  "timeoutId (stop a) = None"
  by (simp_all add: stop_def Let_def split: option.split)

lemma stopped_step:
  assumes "\<not> isRunning a" "e \<noteq> Start"
  shows "\<not> isRunning (glitch_step e a) \<and> scheduled (glitch_step e a) = scheduled a"
proof (cases e)
  case Start
  with assms show ?thesis by simp
next
  case Stop
  then show ?thesis by (simp add: stop_fields)
next
  case (TriggerOnce found)
  with assms show ?thesis
    by (simp add: triggerOnce_def setTimeout_def)
next
  case (Fire i found)
  show ?thesis
  proof (cases "pending (gtimers a) i")
    case None
    with Fire assms show ?thesis by (simp add: fire_def)
  next
    case (Some k)
    with Fire assms show ?thesis
      by (cases k)
         (simp_all add: fire_def executeGlitch_def scheduleNextGlitch_def stop_fields setTimeout_def)
  qed
qed

lemma stopped_run:
  "\<not> isRunning a \<Longrightarrow> Start \<notin> set es \<Longrightarrow>
   \<not> isRunning (glitch_run es a) \<and> scheduled (glitch_run es a) = scheduled a"
proof (induction es arbitrary: a)
  case Nil
  then show ?case by simp
next
  case (Cons e es)
  from Cons.prems have e: "e \<noteq> Start" and es: "Start \<notin> set es"
    by auto
  from stopped_step [OF Cons.prems(1) e] Cons.IH [of "glitch_step e a"] es
  show ?case by simp
qed

text \<open>
  C10: \<open>start\<close> on a running animator changes nothing, so no second cycle is created; and
  after \<open>stop\<close>, whatever timeouts fire and whatever else is called, as long as \<open>start\<close>
  is not, the animator stays stopped, \<open>_scheduleNextGlitch\<close> is a no-op and the number
  of glitches scheduled does not grow.
\<close>

theorem start_stop_guard:
  "(isRunning a \<longrightarrow> start a = a)
   \<and> (Start \<notin> set es \<longrightarrow>
        scheduled (glitch_run es (stop a)) = scheduled a
        \<and> \<not> isRunning (glitch_run es (stop a))
        \<and> scheduleNextGlitch (glitch_run es (stop a)) = glitch_run es (stop a))"
proof -
  have "Start \<notin> set es \<Longrightarrow>
        \<not> isRunning (glitch_run es (stop a)) \<and> scheduled (glitch_run es (stop a)) = scheduled (stop a)"
    by (rule stopped_run) (simp add: stop_fields)
  then show ?thesis
    by (auto simp: start_def stop_fields scheduleNextGlitch_stopped)
qed

theorem start_stop_guard_witness:
  "isRunning (glitch_run [Start, Fire 1 True] GlitchAnimator)
   \<and> start (glitch_run [Start, Fire 1 True] GlitchAnimator) = glitch_run [Start, Fire 1 True] GlitchAnimator
   \<and> Start \<notin> set [Fire 2 True, TriggerOnce True]
   \<and> scheduled (glitch_run [Start, Fire 1 True] GlitchAnimator) = 1
   \<and> scheduled (glitch_run [Fire 2 True, TriggerOnce True] (stop (glitch_run [Start, Fire 1 True] GlitchAnimator))) = 1"
  using start_stop_guard [of "glitch_run [Start, Fire 1 True] GlitchAnimator" "[Fire 2 True, TriggerOnce True]"]
  by (simp add: GlitchAnimator_def start_def scheduleNextGlitch_def setTimeout_def no_timers_def
      fire_def clearTimeout_def executeGlitch_def)

section \<open>Properties of the intro controller and of missing elements\<close>

lemma hideIntro_fields:
  "calls (hideIntro s) = calls s" "isSkipped (hideIntro s) = isSkipped s"
  "isComplete (hideIntro s) = isComplete s" "storage (hideIntro s) = storage s"
  "config (hideIntro s) = config s"
  by (simp_all add: hideIntro_def removeHandlers_def split: option.split)

lemma removeIntro_fields:
  "calls (removeIntro s) = calls s" "isSkipped (removeIntro s) = isSkipped s"
  "isComplete (removeIntro s) = isComplete s" "storage (removeIntro s) = storage s"
  "config (removeIntro s) = config s"
  by (simp_all add: removeIntro_def split: option.split)

lemma skip_fields:
  "isSkipped (skip s) \<or> isComplete (skip s)" "isComplete (skip s) = isComplete s"
  "storage (skip s) = storage s"
  "count_list (calls (skip s)) Completed = count_list (calls s) Completed"
  by (simp_all add: skip_def Let_def hideIntro_fields)

lemma skipped_step:
  assumes "isSkipped s"
  shows "isSkipped (intro_step e s) \<and> isComplete (intro_step e s) = isComplete s
       \<and> calls (intro_step e s) = calls s \<and> storage (intro_step e s) = storage s"
  using assms
  by (cases e) (simp_all add: skip_def complete_def destroy_def removeHandlers_def
      fadeOut_elapsed_def removeIntro_fields)

lemma skipped_run:
  "isSkipped s \<Longrightarrow>
   isSkipped (intro_run es s) \<and> isComplete (intro_run es s) = isComplete s
   \<and> calls (intro_run es s) = calls s \<and> storage (intro_run es s) = storage s"
proof (induction es arbitrary: s)
  case Nil
  then show ?case by simp
next
  case (Cons e es)
  from skipped_step [OF Cons.prems, of e] Cons.IH [of "intro_step e s"]
  show ?case by simp
qed

lemma cancelled_step:
  assumes "cancelled t" "\<not> interval t"
  shows "cancelled (cancellable_step tx cfg e t) \<and> \<not> interval (cancellable_step tx cfg e t)
       \<and> fired (cancellable_step tx cfg e t) = fired t
       \<and> target (cancellable_step tx cfg e t) = target t"
  using assms
  by (cases e) (simp_all add: cancellable_started_def cancellable_tick_def cancel_def)

lemma cancelled_run:
  "cancelled t \<Longrightarrow> \<not> interval t \<Longrightarrow>
   fired (cancellable_run tx cfg es t) = fired t \<and> target (cancellable_run tx cfg es t) = target t"
proof (induction es arbitrary: t)
  case Nil
  then show ?case by simp
next
  case (Cons e es)
  from cancelled_step [OF Cons.prems, of tx cfg e] Cons.IH [of "cancellable_step tx cfg e t"]
  show ?case by simp
qed

text \<open>
  C6: skipping a running intro never fires the completion callback: after \<open>skip\<close> on a
  controller that has not completed, no later call or event adds a \<open>Completed\<close> callback
  and the controller never becomes complete, while \<open>complete\<close> on a running controller
  with an \<open>onComplete\<close> callback fires it. Likewise a cancelled typing process fires no
  further callback, and the interval tick that finds the text typed fires \<open>onComplete\<close>.
\<close>

theorem skip_never_fires_onComplete:
  "(\<not> isComplete c \<longrightarrow>
      count_list (calls (intro_run es (skip c))) Completed = count_list (calls c) Completed
      \<and> \<not> isComplete (intro_run es (skip c)))
   \<and> (\<not> isSkipped c \<and> \<not> isComplete c \<and> intro_onComplete (config c) \<longrightarrow>
        calls (complete c) = Completed # calls c)
   \<and> fired (cancellable_run tx cfg evs (cancel t)) = fired t
   \<and> (interval t \<and> \<not> cancelled t \<and> index t = length tx \<and> onComplete cfg \<longrightarrow>
        fired (cancellable_tick tx cfg t) = OnComplete # fired t)"
proof -
  have a: "\<not> isComplete c \<Longrightarrow>
      count_list (calls (intro_run es (skip c))) Completed = count_list (calls c) Completed
      \<and> \<not> isComplete (intro_run es (skip c))"
  proof -
    assume nc: "\<not> isComplete c"
    with skip_fields(1,2) [of c] have "isSkipped (skip c)"
      by simp
    from skipped_run [OF this, of es] nc show ?thesis
      by (simp add: skip_fields)
  qed
  have b: "fired (cancellable_run tx cfg evs (cancel t)) = fired t"
    using cancelled_run [of "cancel t" tx cfg evs] by (simp add: cancel_def)
  show ?thesis
    using a b by (simp add: complete_def Let_def hideIntro_fields cancellable_tick_def finish_typing_def)
qed

theorem skip_never_fires_onComplete_witness:
  "\<not> isComplete (snd (init True (projr (IntroController demo_intro_config demo_page fresh_session))))
   \<and> \<not> isSkipped (snd (init True (projr (IntroController demo_intro_config demo_page fresh_session))))
   \<and> calls (intro_run [CallComplete, KeyDown]
         (skip (snd (init True (projr (IntroController demo_intro_config demo_page fresh_session))))))
       = [Skipped]
   \<and> calls (complete (snd (init True (projr (IntroController demo_intro_config demo_page fresh_session)))))
       = [Completed]
   \<and> fired (cancellable_run demo_text (DEFAULT_CONFIG\<lparr>onComplete := True\<rparr>) [IntervalTick, StartDelayElapsed]
         (cancel (projr (typeWriterCancellable (Some demo_text) (Some demo_element) (DEFAULT_CONFIG\<lparr>onComplete := True\<rparr>)))))
       = []
   \<and> fired (cancellable_run demo_text (DEFAULT_CONFIG\<lparr>onComplete := True\<rparr>) [IntervalTick, IntervalTick, IntervalTick]
         (projr (typeWriterCancellable (Some demo_text) (Some demo_element) (DEFAULT_CONFIG\<lparr>onComplete := True\<rparr>))))
       = [OnComplete]"
  using skip_never_fires_onComplete
    [of "snd (init True (projr (IntroController demo_intro_config demo_page fresh_session)))"
        "[CallComplete, KeyDown]" demo_text "DEFAULT_CONFIG\<lparr>onComplete := True\<rparr>"
        "[IntervalTick, StartDelayElapsed]"
        "projr (typeWriterCancellable (Some demo_text) (Some demo_element) (DEFAULT_CONFIG\<lparr>onComplete := True\<rparr>))"]
  by (simp add: IntroController_def demo_intro_config_def intro_defaults_def demo_page_def
      fresh_session_def falsy_id_def init_def getElementById_def Let_def attachKeyHandler_def
      attachClickHandler_def skip_def complete_def hideIntro_def removeHandlers_def setItem_def
      typeWriterCancellable_def falsy_text_def demo_text_def str_def demo_element_def
      DEFAULT_CONFIG_def typing_init_def cancel_def cancellable_tick_def cancellable_started_def
      type_char_def finish_typing_def)

text \<open>
  C1, on the intro controller configured to show once per session
  (\<open>showOnRefresh = false\<close>): the intro is shown, the user skips it, and session storage
  is exactly what it was, with no flag; a controller initialised again in the same
  session shows the intro again. \<open>complete\<close> at the same point does set the flag.
\<close>

theorem intro_skip_leaves_flag_unset:
  "\<not> isl (IntroController (demo_intro_config\<lparr>showOnRefresh := False\<rparr>) demo_page fresh_session)
   \<and> fst (init False (projr (IntroController (demo_intro_config\<lparr>showOnRefresh := False\<rparr>) demo_page fresh_session)))
   \<and> isSkipped (skip (snd (init False (projr (IntroController (demo_intro_config\<lparr>showOnRefresh := False\<rparr>) demo_page fresh_session)))))
   \<and> storage (skip (snd (init False (projr (IntroController (demo_intro_config\<lparr>showOnRefresh := False\<rparr>) demo_page fresh_session)))))
       = fresh_session
   \<and> getItem ''terminalIntroShown'' fresh_session = None
   \<and> fst (init False (projr (IntroController (demo_intro_config\<lparr>showOnRefresh := False\<rparr>) demo_page
         (storage (skip (snd (init False (projr (IntroController (demo_intro_config\<lparr>showOnRefresh := False\<rparr>) demo_page fresh_session)))))))))
   \<and> getItem ''terminalIntroShown''
        (storage (complete (snd (init False (projr (IntroController (demo_intro_config\<lparr>showOnRefresh := False\<rparr>) demo_page fresh_session))))))
       = Some ''true''"
  by (simp add: IntroController_def demo_intro_config_def intro_defaults_def demo_page_def
      fresh_session_def falsy_id_def init_def getElementById_def Let_def attachKeyHandler_def
      attachClickHandler_def skip_def complete_def hideIntro_def removeHandlers_def setItem_def getItem_def truthy_def)

text \<open>
  C3, as the code has it: with a null element \<open>typeWriter\<close>, \<open>typeWriterCancellable\<close> and
  \<open>instantText\<close> report an error, and so does the \<open>IntroController\<close> constructor without
  an \<open>introId\<close>; with an element id that is not in the document, \<open>init\<close> returns
  \<open>false\<close> after a warning and changes nothing else, the \<open>ModalController\<close> is left
  without modal and without listeners after a warning, \<open>triggerOnce\<close> does nothing and
  \<open>_executeGlitch\<close> stops the animator.
\<close>

theorem missing_element_handling:
  "typeWriter tx None cfg = Inl (Error ''typeWriter: element is required'')
   \<and> typeWriterCancellable tx None cfg = Inl (Error ''typeWriterCancellable: element is required'')
   \<and> instantText content None = Inl (Error ''instantText: element is required'')
   \<and> (falsy_id (introId icfg) \<longrightarrow>
        IntroController icfg d st = Inl (Error ''IntroController: introId is required''))
   \<and> (getElementById (introId (config c)) (document c) = None \<longrightarrow>
        init r c = (False, c\<lparr>introElement := None,
                              warnings := ''IntroController: element not found'' # warnings c\<rparr>))
   \<and> (getElementById (modalId mcfg) d = None \<longrightarrow>
        ModalController mcfg d =
          \<lparr>modal_cfg = mcfg, isOpen = False, modal = None, triggers = [], closeButtons = [],
           modal_listeners = [], modal_warnings = [''Modal element not found'']\<rparr>)
   \<and> triggerOnce False a = a
   \<and> executeGlitch False a = stop a"
  by (simp add: typeWriter_def typeWriterCancellable_def instantText_def IntroController_def
      init_def Let_def ModalController_def modal_init_def triggerOnce_def executeGlitch_def)

theorem missing_element_handling_witness:
  "falsy_id (introId intro_defaults)
   \<and> IntroController intro_defaults empty_page fresh_session = Inl (Error ''IntroController: introId is required'')
   \<and> getElementById (introId demo_intro_config) empty_page = None
   \<and> fst (init True (projr (IntroController demo_intro_config empty_page fresh_session))) = False
   \<and> listeners (snd (init True (projr (IntroController demo_intro_config empty_page fresh_session)))) = []
   \<and> modal_listeners (ModalController \<lparr>modalId = Some ''menu'', triggerIds = Some [''open''], closeIds = None,
        transitionDuration = 200, closeOnNavigation = True, closeOnEscape = True,
        closeOnResize = True, resizeBreakpoint = 768\<rparr> empty_page) = []"
  using missing_element_handling
    [where icfg = intro_defaults and d = empty_page and st = fresh_session
       and c = "projr (IntroController demo_intro_config empty_page fresh_session)" and r = True
       and mcfg = "\<lparr>modalId = Some ''menu'', triggerIds = Some [''open''], closeIds = None,
        transitionDuration = 200, closeOnNavigation = True, closeOnEscape = True,
        closeOnResize = True, resizeBreakpoint = 768\<rparr>"]
  by (simp add: falsy_id_def intro_defaults_def demo_intro_config_def empty_page_def
      getElementById_def IntroController_def init_def Let_def ModalController_def modal_init_def)

text \<open>C3 as stated fails: \<open>typeWriter\<close> with a null element hands an error to its caller.\<close>

theorem typeWriter_null_element_throws:
  "typeWriter (Some demo_text) None DEFAULT_CONFIG = Inl (Error ''typeWriter: element is required'')"
  by (simp add: typeWriter_def)

section \<open>The hook between events\<close>

lemma typewriter_cleanup_fields:
  "hasPlayed (typewriter_cleanup s) = hasPlayed s"
  "isInitialized (typewriter_cleanup s) = isInitialized s"
  "displayText (typewriter_cleanup s) = displayText s"
  "h_isComplete (typewriter_cleanup s) = h_isComplete s"
  "timeoutRef (typewriter_cleanup s) = timeoutRef s"
  "indexRef (typewriter_cleanup s) = indexRef s"
  "rendered (typewriter_cleanup s) = rendered s"
  "init_deps (typewriter_cleanup s) = init_deps s"
  "typing_cleanup (typewriter_cleanup s) = typing_cleanup s"
  "h_storage (typewriter_cleanup s) = h_storage s"
  "h_mounted (typewriter_cleanup s) = h_mounted s"
  "next_id (h_timers (typewriter_cleanup s)) = next_id (h_timers s)"
  "pending (h_timers (typewriter_cleanup s)) =
     (if typing_cleanup s
      then (case timeoutRef s of None \<Rightarrow> pending (h_timers s)
            | Some i \<Rightarrow> (pending (h_timers s))(i := None))
      else pending (h_timers s))"
  by (simp_all add: typewriter_cleanup_def clearTimeout_def split: option.split)

lemma session_effect_fields:
  "hasPlayed (session_effect key s) =
     (hasPlayed s \<or> (\<not> isInitialized s \<and> truthy (getItem key (h_storage s))))"
  "isInitialized (session_effect key s) = True \<or> isInitialized s"
  "displayText (session_effect key s) = displayText s"
  "h_isComplete (session_effect key s) = h_isComplete s"
  "timeoutRef (session_effect key s) = timeoutRef s"
  "indexRef (session_effect key s) = indexRef s"
  "rendered (session_effect key s) = rendered s"
  "init_deps (session_effect key s) = init_deps s"
  "typing_cleanup (session_effect key s) = typing_cleanup s"
  "h_storage (session_effect key s) = h_storage s"
  "h_mounted (session_effect key s) = h_mounted s"
  "h_timers (session_effect key s) = h_timers s"
  by (simp_all add: session_effect_def Let_def)

lemma init_effect_fields:
  "hasPlayed (init_effect tx p s) = hasPlayed s"
  "isInitialized (init_effect tx p s) = isInitialized s"
  "displayText (init_effect tx p s) = (if p then tx else displayText s)"
  "h_isComplete (init_effect tx p s) = (p \<or> h_isComplete s)"
  "timeoutRef (init_effect tx p s) = timeoutRef s"
  "indexRef (init_effect tx p s) = (if p then length tx else indexRef s)"
  "rendered (init_effect tx p s) = rendered s"
  "init_deps (init_effect tx p s) = init_deps s"
  "typing_cleanup (init_effect tx p s) = typing_cleanup s"
  "h_storage (init_effect tx p s) = h_storage s"
  "h_mounted (init_effect tx p s) = h_mounted s"
  "h_timers (init_effect tx p s) = h_timers s"
  by (simp_all add: init_effect_def)

lemma typewriter_effect_fields:
  "hasPlayed (typewriter_effect tx key p f s) =
     (hasPlayed s \<or> (\<not> p \<and> \<not> f \<and> indexRef s = length tx))"
  "isInitialized (typewriter_effect tx key p f s) = isInitialized s"
  "displayText (typewriter_effect tx key p f s) = displayText s"
  "h_isComplete (typewriter_effect tx key p f s) =
     (h_isComplete s \<or> (\<not> p \<and> \<not> f \<and> indexRef s = length tx))"
  "timeoutRef (typewriter_effect tx key p f s) =
     (if \<not> p \<and> \<not> f \<and> indexRef s < length tx then Some (next_id (h_timers s)) else timeoutRef s)"
  "indexRef (typewriter_effect tx key p f s) = indexRef s"
  "rendered (typewriter_effect tx key p f s) = rendered s"
  "init_deps (typewriter_effect tx key p f s) = init_deps s"
  "typing_cleanup (typewriter_effect tx key p f s) = (\<not> p \<and> \<not> f \<and> indexRef s < length tx)"
  "h_storage (typewriter_effect tx key p f s) =
     (if \<not> p \<and> \<not> f \<and> indexRef s = length tx then setItem key ''true'' (h_storage s) else h_storage s)"
  "h_mounted (typewriter_effect tx key p f s) = h_mounted s"
  "next_id (h_timers (typewriter_effect tx key p f s)) =
     (if \<not> p \<and> \<not> f \<and> indexRef s < length tx then Suc (next_id (h_timers s)) else next_id (h_timers s))"
  "pending (h_timers (typewriter_effect tx key p f s)) =
     (if \<not> p \<and> \<not> f \<and> indexRef s < length tx then (pending (h_timers s))(next_id (h_timers s) \<mapsto> ())
      else pending (h_timers s))"
  by (auto simp add: typewriter_effect_def markAsPlayed_def setTimeout_def Let_def)

lemma typewriter_cleanup_rendered:
  "typewriter_cleanup (s\<lparr>rendered := r\<rparr>) = (typewriter_cleanup s)\<lparr>rendered := r\<rparr>"
  by (simp add: typewriter_cleanup_def split: option.split)

lemmas stage_fields = typewriter_cleanup_fields session_effect_fields init_effect_fields typewriter_effect_fields

lemma hook_pass_fields:
  "rendered (hook_pass tx key s) = Some (snapshot s)"
  "init_deps (hook_pass tx key s) = Some (hasPlayed s)"
  "h_mounted (hook_pass tx key s) = h_mounted s"
  "displayText (hook_pass tx key s) =
     (if hasPlayed s \<and> init_deps s \<noteq> Some True then tx else displayText s)"
  "indexRef (hook_pass tx key s) =
     (if hasPlayed s \<and> init_deps s \<noteq> Some True then length tx else indexRef s)"
  "typing_cleanup (hook_pass tx key s) = (\<not> hasPlayed s \<and> \<not> h_isComplete s \<and> indexRef s < length tx)"
  "h_isComplete (hook_pass tx key s) =
     (h_isComplete s \<or> (hasPlayed s \<and> init_deps s \<noteq> Some True)
      \<or> (\<not> hasPlayed s \<and> indexRef s = length tx))"
  "hasPlayed (hook_pass tx key s) =
     (hasPlayed s \<or> (rendered s = None \<and> \<not> isInitialized s \<and> truthy (getItem key (h_storage s)))
      \<or> (\<not> h_isComplete s \<and> indexRef s = length tx))"
  "h_storage (hook_pass tx key s) =
     (if \<not> hasPlayed s \<and> \<not> h_isComplete s \<and> indexRef s = length tx
      then setItem key ''true'' (h_storage s) else h_storage s)"
  "timeoutRef (hook_pass tx key s) =
     (if \<not> hasPlayed s \<and> \<not> h_isComplete s \<and> indexRef s < length tx
      then Some (next_id (h_timers s)) else timeoutRef s)"
  "next_id (h_timers (hook_pass tx key s)) =
     (if \<not> hasPlayed s \<and> \<not> h_isComplete s \<and> indexRef s < length tx
      then Suc (next_id (h_timers s)) else next_id (h_timers s))"
  "pending (h_timers (hook_pass tx key s)) =
     (if \<not> hasPlayed s \<and> \<not> h_isComplete s \<and> indexRef s < length tx
      then (pending (h_timers (typewriter_cleanup s)))(next_id (h_timers s) \<mapsto> ())
      else pending (h_timers (typewriter_cleanup s)))"
  by (auto simp add: hook_pass_def Let_def stage_fields typewriter_cleanup_rendered)

lemma cleanup_clears:
  assumes "hook_inv tx key s"
  shows "pending (h_timers (typewriter_cleanup s)) = Map.empty"
proof
  fix i
  show "pending (h_timers (typewriter_cleanup s)) i = None"
    using assms unfolding hook_inv_def
    by (cases "pending (h_timers s) i") (auto simp: typewriter_cleanup_fields split: option.split)
qed

lemma truthy_setItem: "truthy (getItem key (setItem key ''true'' st))"
  by (simp add: truthy_def getItem_def setItem_def)

lemma hook_pass_inv:
  assumes "hook_inv tx key s"
  shows "hook_inv tx key (hook_pass tx key s)"
  using assms cleanup_clears [OF assms] unfolding hook_inv_def
  by (simp add: hook_pass_fields snapshot_def truthy_setItem)

lemma hook_pass_done:
  assumes "hook_inv tx key s"
  shows "hook_done tx (hook_pass tx key s)"
  using assms unfolding hook_inv_def hook_done_def
  by (auto simp add: hook_pass_fields snapshot_def)

lemma hook_pass_index:
  assumes "hook_inv tx key s"
  shows "indexRef s \<le> indexRef (hook_pass tx key s)"
  using assms unfolding hook_inv_def by (simp add: hook_pass_fields)

lemma hook_commit_inv:
  "hook_inv tx key s \<Longrightarrow> (rendered s = Some (snapshot s) \<longrightarrow> hook_done tx s) \<Longrightarrow>
   hook_inv tx key (hook_commit tx key s) \<and> hook_done tx (hook_commit tx key s)
   \<and> rendered (hook_commit tx key s) = Some (snapshot (hook_commit tx key s))
   \<and> h_mounted (hook_commit tx key s) = h_mounted s
   \<and> indexRef s \<le> indexRef (hook_commit tx key s)"
proof (induction tx key s rule: hook_commit.induct)
  case (1 tx key s)
  show ?case
  proof (cases "rendered s = Some (snapshot s)")
    case True
    then have "hook_commit tx key s = s"
      by (subst hook_commit.simps) simp
    with True "1.prems" show ?thesis by simp
  next
    case False
    have inv: "hook_inv tx key (hook_pass tx key s)"
      using "1.prems"(1) by (rule hook_pass_inv)
    have dn: "hook_done tx (hook_pass tx key s)"
      using "1.prems"(1) by (rule hook_pass_done)
    have ih: "hook_inv tx key (hook_commit tx key (hook_pass tx key s))
        \<and> hook_done tx (hook_commit tx key (hook_pass tx key s))
        \<and> rendered (hook_commit tx key (hook_pass tx key s))
            = Some (snapshot (hook_commit tx key (hook_pass tx key s)))
        \<and> h_mounted (hook_commit tx key (hook_pass tx key s)) = h_mounted (hook_pass tx key s)
        \<and> indexRef (hook_pass tx key s) \<le> indexRef (hook_commit tx key (hook_pass tx key s))"
      using "1.IH" [OF False inv] dn by simp
    have eq: "hook_commit tx key s = hook_commit tx key (hook_pass tx key s)"
      using False by (subst hook_commit.simps) simp
    from ih hook_pass_index [OF "1.prems"(1)] show ?thesis
      unfolding eq by (simp add: hook_pass_fields)
  qed
qed


lemma char_at_nonempty: "char_at tx k \<noteq> []"
  by (simp add: char_at_def str_def)

lemma mount_good: "hook_good tx key (useTypewriterAnimation tx key st)"
proof -
  define s0 where "s0 = \<lparr>hasPlayed = False, isInitialized = False, displayText = [], h_isComplete = False,
        timeoutRef = None, indexRef = 0, rendered = None, init_deps = None,
        typing_cleanup = False, h_timers = no_timers, h_storage = st, h_mounted = True\<rparr>"
  have inv: "hook_inv tx key s0"
    by (simp add: hook_inv_def s0_def no_timers_def)
  have "rendered s0 = Some (snapshot s0) \<longrightarrow> hook_done tx s0"
    by (simp add: s0_def)
  from hook_commit_inv [OF inv this] have "hook_good tx key (hook_commit tx key s0)"
    by (simp add: hook_good_def s0_def)
  then show ?thesis
    by (simp add: useTypewriterAnimation_def s0_def)
qed

lemma commit_good:
  assumes "hook_inv tx key s" "rendered s = Some (snapshot s) \<longrightarrow> hook_done tx s" "h_mounted s"
  shows "hook_good tx key (hook_commit tx key s) \<and> indexRef s \<le> indexRef (hook_commit tx key s)"
  using hook_commit_inv [OF assms(1,2)] assms(3) by (simp add: hook_good_def)

lemma fire_good:
  assumes "hook_good tx key s"
  shows "hook_good tx key (hook_fire tx key i eager s) \<and> indexRef s \<le> indexRef (hook_fire tx key i eager s)
       \<and> (pending (h_timers s) i \<noteq> None \<longrightarrow> indexRef s < indexRef (hook_fire tx key i eager s))"
proof (cases "pending (h_timers s) i")
  case None
  with assms show ?thesis by (simp add: hook_fire_def)
next
  case (Some u)
  from assms have inv: "hook_inv tx key s" and settled: "rendered s = Some (snapshot s)"
    by (simp_all add: hook_good_def)
  from assms Some have mounted: "h_mounted s"
    by (auto simp: hook_good_def)
  from inv Some have ref: "timeoutRef s = Some i" and lt: "indexRef s < length tx"
    by (auto simp: hook_inv_def)
  define k where "k = (if eager then indexRef s else Suc (indexRef s))"
  define s2 where "s2 = s\<lparr>h_timers := clearTimeout i (h_timers s), indexRef := Suc (indexRef s),
     displayText := displayText s @ char_at tx k\<rparr>"
  have fire: "hook_fire tx key i eager s = hook_commit tx key s2"
    using Some mounted by (simp add: hook_fire_def timer_callback_def Let_def s2_def k_def)
  have none: "pending (h_timers s2) j = None" for j
    using inv ref by (cases "pending (h_timers s) j") (auto simp: hook_inv_def s2_def clearTimeout_def)
  have inv2: "hook_inv tx key s2"
    using inv lt none unfolding hook_inv_def
    by (simp add: s2_def clearTimeout_def)
  have "rendered s2 \<noteq> Some (snapshot s2)"
    using settled char_at_nonempty [of tx k] by (simp add: s2_def snapshot_def)
  then have dn: "rendered s2 = Some (snapshot s2) \<longrightarrow> hook_done tx s2"
    by simp
  have m2: "h_mounted s2"
    using mounted by (simp add: s2_def)
  have "Suc (indexRef s) = indexRef s2"
    by (simp add: s2_def)
  with commit_good [OF inv2 dn m2] show ?thesis
    unfolding fire by simp
qed

lemma skip_good:
  assumes "hook_good tx key s" "h_mounted s"
  shows "hook_good tx key (hook_skip tx key s) \<and> indexRef s \<le> indexRef (hook_skip tx key s)"
proof (cases "h_isComplete s")
  case True
  with assms show ?thesis
    by (simp add: hook_skip_def hook_good_def snapshot_def)
next
  case False
  from assms have inv: "hook_inv tx key s" and settled: "rendered s = Some (snapshot s)"
    by (simp_all add: hook_good_def)
  define s1 where "s1 = (case timeoutRef s of None \<Rightarrow> s
                         | Some i \<Rightarrow> s\<lparr>h_timers := clearTimeout i (h_timers s)\<rparr>)"
  define s3 where "s3 = markAsPlayed key (s1\<lparr>displayText := tx, indexRef := length tx, h_isComplete := True\<rparr>)"
  have skip: "hook_skip tx key s = hook_commit tx key s3"
    using False settled assms(2) by (simp add: hook_skip_def snapshot_def s3_def s1_def Let_def)
  have none: "pending (h_timers s1) j = None" for j
    using inv by (cases "pending (h_timers s) j")
      (auto simp: hook_inv_def s1_def clearTimeout_def split: option.split)
  have s1: "next_id (h_timers s1) = next_id (h_timers s)" "rendered s1 = rendered s"
    "init_deps s1 = init_deps s" "typing_cleanup s1 = typing_cleanup s" "h_mounted s1 = h_mounted s"
    "indexRef s1 = indexRef s"
    by (simp_all add: s1_def clearTimeout_def split: option.split)
  have inv3: "hook_inv tx key s3"
    using inv none s1 unfolding hook_inv_def
    by (simp add: s3_def markAsPlayed_def truthy_setItem)
  have "hook_done tx s3"
    by (simp add: hook_done_def s3_def markAsPlayed_def)
  then have dn: "rendered s3 = Some (snapshot s3) \<longrightarrow> hook_done tx s3"
    by simp
  have m3: "h_mounted s3"
    using assms(2) s1 by (simp add: s3_def markAsPlayed_def)
  have "indexRef s \<le> length tx"
    using inv by (simp add: hook_inv_def)
  then have "indexRef s \<le> indexRef s3"
    by (simp add: s3_def markAsPlayed_def)
  with commit_good [OF inv3 dn m3] show ?thesis
    unfolding skip by simp
qed

lemma unmount_good:
  assumes "hook_good tx key s"
  shows "hook_good tx key (hook_unmount s) \<and> indexRef s \<le> indexRef (hook_unmount s)"
proof -
  from assms have inv: "hook_inv tx key s" and dn: "hook_done tx s"
    and settled: "rendered s = Some (snapshot s)"
    by (simp_all add: hook_good_def)
  have none: "pending (h_timers (typewriter_cleanup s)) = Map.empty"
    using inv by (rule cleanup_clears)
  have inv': "hook_inv tx key (hook_unmount s)"
    using inv none unfolding hook_inv_def hook_unmount_def
    by (simp add: typewriter_cleanup_fields)
  have dn': "hook_done tx (hook_unmount s)"
    using dn unfolding hook_done_def hook_unmount_def
    by (simp add: typewriter_cleanup_fields)
  have st': "rendered (hook_unmount s) = Some (snapshot (hook_unmount s))"
    using settled unfolding hook_unmount_def
    by (simp add: typewriter_cleanup_fields snapshot_def)
  show ?thesis
    using inv' dn' st' none
    by (simp add: hook_good_def hook_unmount_def typewriter_cleanup_fields)
qed

lemma step_good:
  assumes "hook_good tx key s" "e \<noteq> HookSkip \<or> h_mounted s"
  shows "hook_good tx key (hook_step tx key e s) \<and> indexRef s \<le> indexRef (hook_step tx key e s)"
proof (cases e)
  case (HookTimer i eager)
  with fire_good [OF assms(1)] show ?thesis by simp
next
  case HookSkip
  with assms(2) have m: "h_mounted s"
    by simp
  from skip_good [OF assms(1) m] HookSkip show ?thesis by simp
next
  case HookUnmount
  with assms(1) unmount_good [OF assms(1)] show ?thesis by simp
qed

lemma run_good:
  "hook_good tx key s \<Longrightarrow> HookSkip \<notin> set es \<Longrightarrow>
   hook_good tx key (hook_run tx key es s) \<and> indexRef s \<le> indexRef (hook_run tx key es s)"
proof (induction es arbitrary: s)
  case Nil
  then show ?case by simp
next
  case (Cons e es)
  from Cons.prems(2) have e: "e \<noteq> HookSkip \<or> h_mounted s" and es: "HookSkip \<notin> set es"
    by auto
  from step_good [OF Cons.prems(1) e]
  have g: "hook_good tx key (hook_step tx key e s)"
    and le: "indexRef s \<le> indexRef (hook_step tx key e s)"
    by simp_all
  from Cons.IH [OF g es] le show ?case by simp
qed

lemma good_safe: "hook_good tx key s \<Longrightarrow> hook_safe tx key s"
  by (simp add: hook_good_def hook_safe_def)

lemma safe_good: "hook_safe tx key s \<Longrightarrow> h_mounted s \<Longrightarrow> hook_good tx key s"
  by (simp add: hook_good_def hook_safe_def)

lemma skip_unmounted:
  assumes "hook_safe tx key s" "\<not> h_mounted s"
  shows "hook_safe tx key (hook_skip tx key s) \<and> indexRef s \<le> indexRef (hook_skip tx key s)
       \<and> displayText (hook_skip tx key s) = displayText s
       \<and> pending (h_timers (hook_skip tx key s)) = Map.empty
       \<and> \<not> h_mounted (hook_skip tx key s)"
proof (cases "h_isComplete s")
  case True
  with assms have "hook_skip tx key s = s"
    by (simp add: hook_skip_def hook_safe_def snapshot_def)
  with assms show ?thesis
    by (simp add: hook_safe_def)
next
  case False
  from assms have inv: "hook_inv tx key s" and settled: "rendered s = Some (snapshot s)"
    and e: "pending (h_timers s) = Map.empty"
    by (simp_all add: hook_safe_def)
  define s1 where "s1 = (case timeoutRef s of None \<Rightarrow> s
                         | Some i \<Rightarrow> s\<lparr>h_timers := clearTimeout i (h_timers s)\<rparr>)"
  define s2 where "s2 = s1\<lparr>indexRef := length tx, h_storage := setItem key ''true'' (h_storage s1)\<rparr>"
  have skip: "hook_skip tx key s = s2"
    using False settled assms(2) by (simp add: hook_skip_def snapshot_def s2_def s1_def Let_def)
  have none: "pending (h_timers s1) = Map.empty"
    using e by (simp add: s1_def clearTimeout_def split: option.split)
  have s1: "next_id (h_timers s1) = next_id (h_timers s)" "rendered s1 = rendered s"
    "init_deps s1 = init_deps s" "typing_cleanup s1 = typing_cleanup s" "h_mounted s1 = h_mounted s"
    "indexRef s1 = indexRef s" "hasPlayed s1 = hasPlayed s" "displayText s1 = displayText s"
    "h_isComplete s1 = h_isComplete s"
    by (simp_all add: s1_def clearTimeout_def split: option.split)
  have inv2: "hook_inv tx key s2"
    using inv none s1 unfolding hook_inv_def
    by (simp add: s2_def truthy_setItem)
  have r2: "rendered s2 = Some (snapshot s2)"
    using settled s1 by (simp add: s2_def snapshot_def)
  have "indexRef s \<le> length tx"
    using inv unfolding hook_inv_def by (rule conjunct1)
  with inv2 r2 none s1 assms(2) show ?thesis
    unfolding skip by (simp add: hook_safe_def s2_def)
qed

lemma step_safe:
  assumes "hook_safe tx key s"
  shows "hook_safe tx key (hook_step tx key e s) \<and> indexRef s \<le> indexRef (hook_step tx key e s)"
proof (cases "h_mounted s")
  case True
  from safe_good [OF assms True] have g: "hook_good tx key s" .
  from True have "e \<noteq> HookSkip \<or> h_mounted s"
    by simp
  from step_good [OF g this] show ?thesis
    by (simp add: good_safe)
next
  case False
  with assms have e: "pending (h_timers s) = Map.empty"
    by (simp add: hook_safe_def)
  show ?thesis
  proof (cases e)
    case (HookTimer i eager)
    with assms e show ?thesis
      by (simp add: hook_fire_def)
  next
    case HookSkip
    with skip_unmounted [OF assms False] show ?thesis by simp
  next
    case HookUnmount
    with assms False show ?thesis by simp
  qed
qed

lemma run_safe:
  "hook_safe tx key s \<Longrightarrow>
   hook_safe tx key (hook_run tx key es s) \<and> indexRef s \<le> indexRef (hook_run tx key es s)"
proof (induction es arbitrary: s)
  case Nil
  then show ?case by simp
next
  case (Cons e es)
  from step_safe [OF Cons.prems, of e]
  have g: "hook_safe tx key (hook_step tx key e s)"
    and le: "indexRef s \<le> indexRef (hook_step tx key e s)"
    by simp_all
  from Cons.IH [OF g] le show ?case by simp
qed

lemma mount_safe: "hook_safe tx key (useTypewriterAnimation tx key st)"
  using mount_good by (rule good_safe)

lemma hook_run_append: "hook_run tx key (es @ es') s = hook_run tx key es' (hook_run tx key es s)"
  by (induction es arbitrary: s) simp_all

section \<open>The prompt between events\<close>

lemma typing_cleanup_run_fields:
  "p_displayText (typing_cleanup_run s) = p_displayText s"
  "currentIndex (typing_cleanup_run s) = currentIndex s"
  "p_hasPlayed (typing_cleanup_run s) = p_hasPlayed s"
  "p_rendered (typing_cleanup_run s) = p_rendered s"
  "p_cleanup (typing_cleanup_run s) = p_cleanup s"
  "key_handler (typing_cleanup_run s) = key_handler s"
  "p_storage (typing_cleanup_run s) = p_storage s"
  "p_mounted (typing_cleanup_run s) = p_mounted s"
  "next_id (p_timers (typing_cleanup_run s)) = next_id (p_timers s)"
  "pending (p_timers (typing_cleanup_run s)) =
     (case p_cleanup s of None \<Rightarrow> pending (p_timers s)
      | Some i \<Rightarrow> (pending (p_timers s))(i := None))"
  by (simp_all add: typing_cleanup_run_def clearTimeout_def split: option.split)

lemma typing_cleanup_run_rendered:
  "typing_cleanup_run (s\<lparr>p_rendered := r\<rparr>) = (typing_cleanup_run s)\<lparr>p_rendered := r\<rparr>"
  by (simp add: typing_cleanup_run_def split: option.split)

lemma typing_effect_fields:
  "p_displayText (typing_effect idx played s) =
     (if truthy (getItem ''promptPlayed'' (p_storage s)) then fullText else p_displayText s)"
  "currentIndex (typing_effect idx played s) =
     (if truthy (getItem ''promptPlayed'' (p_storage s)) then length fullText else currentIndex s)"
  "p_hasPlayed (typing_effect idx played s) =
     (p_hasPlayed s \<or> truthy (getItem ''promptPlayed'' (p_storage s))
      \<or> (idx = length fullText \<and> \<not> played))"
  "p_rendered (typing_effect idx played s) = p_rendered s"
  "p_cleanup (typing_effect idx played s) =
     (if \<not> truthy (getItem ''promptPlayed'' (p_storage s)) \<and> idx < length fullText
      then Some (next_id (p_timers s)) else None)"
  "key_handler (typing_effect idx played s) = key_handler s"
  "p_storage (typing_effect idx played s) =
     (if \<not> truthy (getItem ''promptPlayed'' (p_storage s)) \<and> idx = length fullText \<and> \<not> played
      then setItem ''promptPlayed'' ''true'' (p_storage s) else p_storage s)"
  "p_mounted (typing_effect idx played s) = p_mounted s"
  "next_id (p_timers (typing_effect idx played s)) =
     (if \<not> truthy (getItem ''promptPlayed'' (p_storage s)) \<and> idx < length fullText
      then Suc (next_id (p_timers s)) else next_id (p_timers s))"
  "pending (p_timers (typing_effect idx played s)) =
     (if \<not> truthy (getItem ''promptPlayed'' (p_storage s)) \<and> idx < length fullText
      then (pending (p_timers s))(next_id (p_timers s) \<mapsto> idx) else pending (p_timers s))"
  by (auto simp add: typing_effect_def setTimeout_def Let_def)

lemma prompt_pass_fields:
  "p_displayText (prompt_pass s) =
     (if truthy (getItem ''promptPlayed'' (p_storage s)) then fullText else p_displayText s)"
  "currentIndex (prompt_pass s) =
     (if truthy (getItem ''promptPlayed'' (p_storage s)) then length fullText else currentIndex s)"
  "p_hasPlayed (prompt_pass s) =
     (p_hasPlayed s \<or> truthy (getItem ''promptPlayed'' (p_storage s))
      \<or> currentIndex s = length fullText)"
  "p_rendered (prompt_pass s) = Some (currentIndex s, p_hasPlayed s)"
  "p_cleanup (prompt_pass s) =
     (if \<not> truthy (getItem ''promptPlayed'' (p_storage s)) \<and> currentIndex s < length fullText
      then Some (next_id (p_timers s)) else None)"
  "key_handler (prompt_pass s) =
     (if (case p_rendered s of None \<Rightarrow> True | Some r \<Rightarrow> snd r \<noteq> p_hasPlayed s)
      then Some (p_hasPlayed s) else key_handler s)"
  "p_storage (prompt_pass s) =
     (if \<not> truthy (getItem ''promptPlayed'' (p_storage s)) \<and> currentIndex s = length fullText
         \<and> \<not> p_hasPlayed s
      then setItem ''promptPlayed'' ''true'' (p_storage s) else p_storage s)"
  "p_mounted (prompt_pass s) = p_mounted s"
  "next_id (p_timers (prompt_pass s)) =
     (if \<not> truthy (getItem ''promptPlayed'' (p_storage s)) \<and> currentIndex s < length fullText
      then Suc (next_id (p_timers s)) else next_id (p_timers s))"
  "pending (p_timers (prompt_pass s)) =
     (if \<not> truthy (getItem ''promptPlayed'' (p_storage s)) \<and> currentIndex s < length fullText
      then (pending (p_timers (typing_cleanup_run s)))(next_id (p_timers s) \<mapsto> currentIndex s)
      else pending (p_timers (typing_cleanup_run s)))"
  by (auto simp add: prompt_pass_def Let_def typing_effect_fields typing_cleanup_run_fields
      typing_cleanup_run_rendered)

lemma prompt_cleanup_clears:
  assumes "prompt_inv s"
  shows "pending (p_timers (typing_cleanup_run s)) = Map.empty"
proof
  fix i
  show "pending (p_timers (typing_cleanup_run s)) i = None"
    using assms unfolding prompt_inv_def
    by (cases "pending (p_timers s) i") (auto simp: typing_cleanup_run_fields split: option.split)
qed

lemma truthy_promptPlayed: "truthy (getItem ''promptPlayed'' (setItem ''promptPlayed'' ''true'' st))"
  by (simp add: truthy_def getItem_def setItem_def)

lemma prompt_pass_inv:
  assumes "prompt_inv s"
  shows "prompt_inv (prompt_pass s) \<and> prompt_done (prompt_pass s)"
  using assms prompt_cleanup_clears [OF assms] unfolding prompt_inv_def prompt_done_def
  by (auto simp add: prompt_pass_fields truthy_promptPlayed split: option.split)


lemma prompt_commit_inv:
  "prompt_inv s \<Longrightarrow> (p_rendered s = Some (currentIndex s, p_hasPlayed s) \<longrightarrow> prompt_done s) \<Longrightarrow>
   prompt_inv (prompt_commit s) \<and> prompt_done (prompt_commit s)
   \<and> p_rendered (prompt_commit s) = Some (currentIndex (prompt_commit s), p_hasPlayed (prompt_commit s))
   \<and> p_mounted (prompt_commit s) = p_mounted s
   \<and> currentIndex s \<le> currentIndex (prompt_commit s)"
proof (induction s rule: prompt_commit.induct)
  case (1 s)
  show ?case
  proof (cases "p_rendered s = Some (currentIndex s, p_hasPlayed s)")
    case True
    then have "prompt_commit s = s"
      by (subst prompt_commit.simps) simp
    with True "1.prems" show ?thesis by simp
  next
    case False
    have inv: "prompt_inv (prompt_pass s)" and dn: "prompt_done (prompt_pass s)"
      using prompt_pass_inv [OF "1.prems"(1)] by simp_all
    have ih: "prompt_inv (prompt_commit (prompt_pass s)) \<and> prompt_done (prompt_commit (prompt_pass s))
        \<and> p_rendered (prompt_commit (prompt_pass s))
            = Some (currentIndex (prompt_commit (prompt_pass s)), p_hasPlayed (prompt_commit (prompt_pass s)))
        \<and> p_mounted (prompt_commit (prompt_pass s)) = p_mounted (prompt_pass s)
        \<and> currentIndex (prompt_pass s) \<le> currentIndex (prompt_commit (prompt_pass s))"
      using "1.IH" [OF False inv] dn by simp
    have eq: "prompt_commit s = prompt_commit (prompt_pass s)"
      using False by (subst prompt_commit.simps) simp
    have "currentIndex s \<le> currentIndex (prompt_pass s)"
      using "1.prems"(1) by (simp add: prompt_inv_def prompt_pass_fields)
    with ih show ?thesis
      unfolding eq by (simp add: prompt_pass_fields)
  qed
qed

lemma prompt_commit_good:
  assumes "prompt_inv s" "p_rendered s = Some (currentIndex s, p_hasPlayed s) \<longrightarrow> prompt_done s"
    "p_mounted s"
  shows "prompt_good (prompt_commit s) \<and> currentIndex s \<le> currentIndex (prompt_commit s)"
  using prompt_commit_inv [OF assms(1,2)] assms(3) by (simp add: prompt_good_def)

lemma prompt_mount_good: "prompt_good (TerminalPrompt st)"
proof -
  define s0 where "s0 = \<lparr>p_displayText = [], currentIndex = 0, p_hasPlayed = False, p_rendered = None,
        p_cleanup = None, key_handler = None, p_timers = no_timers, p_storage = st,
        p_mounted = True\<rparr>"
  have inv: "prompt_inv s0"
    by (simp add: prompt_inv_def s0_def no_timers_def)
  have dn: "p_rendered s0 = Some (currentIndex s0, p_hasPlayed s0) \<longrightarrow> prompt_done s0"
    by (simp add: s0_def)
  have m: "p_mounted s0"
    by (simp add: s0_def)
  from prompt_commit_good [OF inv dn m] show ?thesis
    by (simp add: TerminalPrompt_def s0_def)
qed

lemma prompt_fire_good:
  assumes "prompt_good s"
  shows "prompt_good (prompt_fire i s) \<and> currentIndex s \<le> currentIndex (prompt_fire i s)
       \<and> (pending (p_timers s) i \<noteq> None \<longrightarrow> currentIndex s < currentIndex (prompt_fire i s))"
proof (cases "pending (p_timers s) i")
  case None
  with assms show ?thesis by (simp add: prompt_fire_def)
next
  case (Some c)
  from assms have inv: "prompt_inv s" and dn: "prompt_done s"
    and settled: "p_rendered s = Some (currentIndex s, p_hasPlayed s)"
    by (simp_all add: prompt_good_def)
  from assms Some have mounted: "p_mounted s"
    by (auto simp: prompt_good_def)
  from inv Some have cl: "p_cleanup s = Some i" and lt: "c < length fullText"
    by (auto simp: prompt_inv_def)
  from dn Some have c: "c = currentIndex s"
    by (simp add: prompt_done_def)
  have nt: "\<not> truthy (getItem ''promptPlayed'' (p_storage s))"
    using inv settled lt c by (auto simp: prompt_inv_def)
  define s2 where "s2 = s\<lparr>p_timers := clearTimeout i (p_timers s),
     p_displayText := p_displayText s @ char_at fullText c, currentIndex := Suc (currentIndex s)\<rparr>"
  have fire: "prompt_fire i s = prompt_commit s2"
    using Some mounted by (simp add: prompt_fire_def Let_def s2_def)
  have none: "pending (p_timers s2) j = None" for j
    using inv cl by (cases "pending (p_timers s) j") (auto simp: prompt_inv_def s2_def clearTimeout_def)
  have inv2: "prompt_inv s2"
    using inv lt c nt none settled unfolding prompt_inv_def
    by (simp add: s2_def clearTimeout_def)
  have dn2: "p_rendered s2 = Some (currentIndex s2, p_hasPlayed s2) \<longrightarrow> prompt_done s2"
    using settled by (simp add: s2_def)
  have m2: "p_mounted s2"
    using mounted by (simp add: s2_def)
  have "Suc (currentIndex s) = currentIndex s2"
    by (simp add: s2_def)
  with prompt_commit_good [OF inv2 dn2 m2] show ?thesis
    unfolding fire by simp
qed

lemma handleKeyPress_good:
  assumes "prompt_good s"
  shows "prompt_good (handleKeyPress s) \<and> currentIndex s \<le> currentIndex (handleKeyPress s)"
proof (cases "key_handler s = Some False")
  case False
  then have "handleKeyPress s = s"
    by (cases "key_handler s") (auto simp: handleKeyPress_def)
  with assms show ?thesis by simp
next
  case True
  from assms have inv: "prompt_inv s"
    and settled: "p_rendered s = Some (currentIndex s, p_hasPlayed s)"
    by (simp_all add: prompt_good_def)
  from assms True have mounted: "p_mounted s"
    by (auto simp: prompt_good_def)
  from inv mounted settled True have np: "\<not> p_hasPlayed s"
    by (auto simp: prompt_inv_def)
  define s2 where "s2 = s\<lparr>p_displayText := fullText, currentIndex := length fullText,
     p_storage := setItem ''promptPlayed'' ''true'' (p_storage s), p_hasPlayed := True\<rparr>"
  have key: "handleKeyPress s = prompt_commit s2"
    using True by (simp add: handleKeyPress_def s2_def)
  have inv2: "prompt_inv s2"
    using inv unfolding prompt_inv_def
    by (simp add: s2_def truthy_promptPlayed)
  have dn2: "p_rendered s2 = Some (currentIndex s2, p_hasPlayed s2) \<longrightarrow> prompt_done s2"
    using settled np by (simp add: s2_def)
  have m2: "p_mounted s2"
    using mounted by (simp add: s2_def)
  have "currentIndex s \<le> currentIndex s2"
    using inv by (simp add: s2_def prompt_inv_def)
  with prompt_commit_good [OF inv2 dn2 m2] show ?thesis
    unfolding key by simp
qed

lemma prompt_unmount_good:
  assumes "prompt_good s"
  shows "prompt_good (prompt_unmount s) \<and> currentIndex s \<le> currentIndex (prompt_unmount s)"
proof -
  from assms have inv: "prompt_inv s"
    and settled: "p_rendered s = Some (currentIndex s, p_hasPlayed s)"
    by (simp_all add: prompt_good_def)
  have none: "pending (p_timers (typing_cleanup_run s)) = Map.empty"
    using inv by (rule prompt_cleanup_clears)
  have inv': "prompt_inv (prompt_unmount s)"
    using inv none unfolding prompt_inv_def prompt_unmount_def
    by (simp add: typing_cleanup_run_fields)
  have dn': "prompt_done (prompt_unmount s)"
    using none unfolding prompt_done_def prompt_unmount_def
    by (simp add: typing_cleanup_run_fields)
  show ?thesis
    using inv' dn' settled none
    by (simp add: prompt_good_def prompt_unmount_def typing_cleanup_run_fields)
qed

lemma prompt_step_good:
  assumes "prompt_good s"
  shows "prompt_good (prompt_step e s) \<and> currentIndex s \<le> currentIndex (prompt_step e s)"
proof (cases e)
  case (PromptTimer i)
  with prompt_fire_good [OF assms] show ?thesis by simp
next
  case PromptKey
  with handleKeyPress_good [OF assms] show ?thesis by simp
next
  case PromptUnmount
  with assms prompt_unmount_good [OF assms] show ?thesis by simp
qed

lemma prompt_run_good:
  "prompt_good s \<Longrightarrow>
   prompt_good (prompt_run es s) \<and> currentIndex s \<le> currentIndex (prompt_run es s)"
proof (induction es arbitrary: s)
  case Nil
  then show ?case by simp
next
  case (Cons e es)
  from prompt_step_good [OF Cons.prems, of e]
  have g: "prompt_good (prompt_step e s)" and le: "currentIndex s \<le> currentIndex (prompt_step e s)"
    by simp_all
  from Cons.IH [OF g] le show ?case by simp
qed

lemma prompt_good_complete:
  assumes "prompt_good s" "currentIndex s = length fullText"
  shows "p_hasPlayed s \<and> truthy (getItem ''promptPlayed'' (p_storage s))"
proof -
  from assms have r: "p_rendered s = Some (length fullText, p_hasPlayed s)"
    by (simp add: prompt_good_def)
  from assms(1) have inv: "prompt_inv s"
    by (simp add: prompt_good_def)
  from inv have played: "p_hasPlayed s \<longrightarrow> truthy (getItem ''promptPlayed'' (p_storage s))"
    unfolding prompt_inv_def by blast
  from inv have k: "p_rendered s \<noteq> None \<longrightarrow> truthy (getItem ''promptPlayed'' (p_storage s)) \<longrightarrow> p_hasPlayed s"
    unfolding prompt_inv_def by blast
  from inv have l: "p_rendered s = Some (length fullText, False) \<longrightarrow> truthy (getItem ''promptPlayed'' (p_storage s))"
    unfolding prompt_inv_def by blast
  show ?thesis
  proof (cases "p_hasPlayed s")
    case True
    with played show ?thesis by simp
  next
    case False
    with r l have "truthy (getItem ''promptPlayed'' (p_storage s))"
      by simp
    with r k have "p_hasPlayed s"
      by simp
    with False show ?thesis by simp
  qed
qed

lemma hook_good_complete:
  assumes "hook_good tx key s" "indexRef s = length tx"
  shows "h_isComplete s \<and> truthy (getItem key (h_storage s))"
proof -
  from assms(1) have r: "rendered s = Some (hasPlayed s, displayText s, h_isComplete s)"
    and dn: "hook_done tx s"
    by (simp_all add: hook_good_def snapshot_def)
  from assms(1) have inv: "hook_inv tx key s"
    by (simp add: hook_good_def)
  from inv have deps: "init_deps s = Some True \<longrightarrow> h_isComplete s"
    unfolding hook_inv_def by blast
  from inv have rd: "init_deps s = Some (fst r)" if "rendered s = Some r" for r
    using that unfolding hook_inv_def by blast
  from inv have flag: "hasPlayed s \<longrightarrow> truthy (getItem key (h_storage s))"
    unfolding hook_inv_def by blast
  from inv have pl: "h_isComplete s \<longrightarrow> hasPlayed s"
    unfolding hook_inv_def by blast
  have c: "h_isComplete s"
  proof (cases "hasPlayed s")
    case True
    with rd [OF r] have "init_deps s = Some True"
      by simp
    with deps show ?thesis by simp
  next
    case False
    show ?thesis
    proof (rule ccontr)
      assume "\<not> h_isComplete s"
      with dn r False assms(2) show False
        by (simp add: hook_done_def)
    qed
  qed
  with pl flag show ?thesis by simp
qed

section \<open>A sample run of the hook\<close>

lemma demo_mount:
  "useTypewriterAnimation demo_text ''k'' fresh_session =
     \<lparr>hasPlayed = False, isInitialized = True, displayText = [], h_isComplete = False,
      timeoutRef = Some 1, indexRef = 0, rendered = Some (False, [], False), init_deps = Some False,
      typing_cleanup = True, h_timers = \<lparr>next_id = 2, pending = [1 \<mapsto> ()]\<rparr>,
      h_storage = fresh_session, h_mounted = True\<rparr>"
  by (simp add: useTypewriterAnimation_def hook_commit.simps hook_pass_def Let_def snapshot_def
      typewriter_cleanup_def session_effect_def init_effect_def typewriter_effect_def
      fresh_session_def getItem_def truthy_def demo_text_def str_def no_timers_def setTimeout_def)

lemma demo_first_tick:
  "hook_fire demo_text ''k'' 1 True (useTypewriterAnimation demo_text ''k'' fresh_session) =
     \<lparr>hasPlayed = False, isInitialized = True, displayText = [111], h_isComplete = False,
      timeoutRef = Some 2, indexRef = 1, rendered = Some (False, [111], False), init_deps = Some False,
      typing_cleanup = True, h_timers = \<lparr>next_id = 3, pending = [2 \<mapsto> ()]\<rparr>,
      h_storage = fresh_session, h_mounted = True\<rparr>"
  by (simp only: demo_mount)
     (simp add: hook_fire_def timer_callback_def clearTimeout_def hook_commit.simps
      hook_pass_def Let_def snapshot_def typewriter_cleanup_def session_effect_def init_effect_def
      typewriter_effect_def fresh_session_def getItem_def truthy_def demo_text_def str_def
      setTimeout_def char_at_def)

lemma demo_second_tick:
  "hook_fire demo_text ''k'' 2 True
     (hook_fire demo_text ''k'' 1 True (useTypewriterAnimation demo_text ''k'' fresh_session)) =
     \<lparr>hasPlayed = True, isInitialized = True, displayText = [111, 107], h_isComplete = True,
      timeoutRef = Some 2, indexRef = 2, rendered = Some (True, [111, 107], True), init_deps = Some True,
      typing_cleanup = False, h_timers = \<lparr>next_id = 3, pending = Map.empty\<rparr>,
      h_storage = setItem ''k'' ''true'' fresh_session, h_mounted = True\<rparr>"
  by (simp only: demo_first_tick)
     (simp add: hook_fire_def timer_callback_def clearTimeout_def hook_commit.simps
      hook_pass_def Let_def snapshot_def typewriter_cleanup_def session_effect_def init_effect_def
      typewriter_effect_def markAsPlayed_def setItem_def fresh_session_def getItem_def truthy_def
      demo_text_def str_def setTimeout_def char_at_def)

lemma demo_typed:
  "indexRef (hook_run demo_text ''k'' [HookTimer 1 True, HookTimer 2 True]
      (useTypewriterAnimation demo_text ''k'' fresh_session)) = length demo_text"
  by (simp only: hook_run.simps hook_step.simps demo_second_tick) (simp add: demo_text_def str_def)

lemma demo_typed_mounted:
  "h_mounted (hook_run demo_text ''k'' [HookTimer 1 True, HookTimer 2 True]
      (useTypewriterAnimation demo_text ''k'' fresh_session))"
  by (simp only: hook_run.simps hook_step.simps demo_second_tick) simp

section \<open>The reveal index\<close>

lemma typeWriter_tick_index:
  "index t \<le> index (typeWriter_tick tw cfg t)"
  "index t \<le> length tw \<Longrightarrow> index (typeWriter_tick tw cfg t) \<le> length tw"
  by (simp_all add: typeWriter_tick_def type_char_def finish_typing_def Let_def)

lemma typeWriter_ticks_index:
  "index t \<le> index (typeWriter_ticks tw cfg n t)
   \<and> (index t \<le> length tw \<longrightarrow> index (typeWriter_ticks tw cfg n t) \<le> length tw)"
proof (induction n arbitrary: t)
  case 0
  show ?case by simp
next
  case (Suc n)
  from Suc [of "typeWriter_tick tw cfg t"] typeWriter_tick_index [of t tw cfg]
  show ?case by auto
qed

lemma typeWriter_ticks_add:
  "typeWriter_ticks tw cfg (n + m) t = typeWriter_ticks tw cfg m (typeWriter_ticks tw cfg n t)"
  by (induction n arbitrary: t) simp_all

lemma prompt_run_append: "prompt_run (es @ es') s = prompt_run es' (prompt_run es s)"
  by (induction es arbitrary: s) simp_all

lemma hook_index_bounded:
  "indexRef (hook_run tx key es (useTypewriterAnimation tx key st)) \<le> length tx"
proof -
  have "hook_safe tx key (hook_run tx key es (useTypewriterAnimation tx key st))"
    using run_safe [OF mount_safe] by (rule conjunct1)
  then have "hook_inv tx key (hook_run tx key es (useTypewriterAnimation tx key st))"
    unfolding hook_safe_def by (rule conjunct1)
  then show ?thesis
    unfolding hook_inv_def by (rule conjunct1)
qed

lemma hook_index_monotone:
  "indexRef (hook_run tx key es (useTypewriterAnimation tx key st))
     \<le> indexRef (hook_run tx key (es @ es') (useTypewriterAnimation tx key st))"
proof -
  have g: "hook_safe tx key (hook_run tx key es (useTypewriterAnimation tx key st))"
    using run_safe [OF mount_safe] by (rule conjunct1)
  show ?thesis
    unfolding hook_run_append using run_safe [OF g] by (rule conjunct2)
qed

lemma prompt_index_bounded:
  "currentIndex (prompt_run evs (TerminalPrompt pst)) \<le> length fullText"
proof -
  have "prompt_good (prompt_run evs (TerminalPrompt pst))"
    using prompt_run_good [OF prompt_mount_good] by (rule conjunct1)
  then have "prompt_inv (prompt_run evs (TerminalPrompt pst))"
    unfolding prompt_good_def by (rule conjunct1)
  then show ?thesis
    unfolding prompt_inv_def by (rule conjunct1)
qed

lemma prompt_index_monotone:
  "currentIndex (prompt_run evs (TerminalPrompt pst))
     \<le> currentIndex (prompt_run (evs @ evs') (TerminalPrompt pst))"
proof -
  have g: "prompt_good (prompt_run evs (TerminalPrompt pst))"
    using prompt_run_good [OF prompt_mount_good] by (rule conjunct1)
  show ?thesis
    unfolding prompt_run_append using prompt_run_good [OF g] by (rule conjunct2)
qed

lemma typeWriter_index:
  assumes "typeWriter (Some tw) (Some el) cfg = Inr t"
  shows "index (typeWriter_ticks tw cfg n (typeWriter_started t)) \<le> length tw
       \<and> index (typeWriter_ticks tw cfg n (typeWriter_started t))
           \<le> index (typeWriter_ticks tw cfg (n + m) (typeWriter_started t))"
proof -
  from assms have "t = projr (typeWriter (Some tw) (Some el) cfg)"
    by simp
  then have "index t = 0"
    by (simp add: typeWriter_def typing_init_def)
  then have "index (typeWriter_started t) \<le> length tw"
    by (simp add: typeWriter_started_def)
  with typeWriter_ticks_index [of "typeWriter_started t" tw cfg n]
  have a: "index (typeWriter_ticks tw cfg n (typeWriter_started t)) \<le> length tw"
    by simp
  from typeWriter_ticks_index [of "typeWriter_ticks tw cfg n (typeWriter_started t)" tw cfg m]
  have b: "index (typeWriter_ticks tw cfg n (typeWriter_started t))
           \<le> index (typeWriter_ticks tw cfg (n + m) (typeWriter_started t))"
    unfolding typeWriter_ticks_add by (rule conjunct1)
  from a b show ?thesis ..
qed

text \<open>
  C4: whatever timeouts fire, whenever \<open>skip\<close> is called or a key is pressed and whenever
  the component unmounts, the reveal index of \<open>useTypewriterAnimation\<close> and of
  \<open>TerminalPrompt\<close> never exceeds the length of the text and never decreases from one
  event to a later one; the same holds of the index of \<open>typeWriter\<close> over its interval
  ticks.
\<close>

theorem reveal_index_monotone_bounded:
  "indexRef (hook_run tx key es (useTypewriterAnimation tx key st)) \<le> length tx
   \<and> indexRef (hook_run tx key es (useTypewriterAnimation tx key st))
       \<le> indexRef (hook_run tx key (es @ es') (useTypewriterAnimation tx key st))
   \<and> currentIndex (prompt_run evs (TerminalPrompt pst)) \<le> length fullText
   \<and> currentIndex (prompt_run evs (TerminalPrompt pst))
       \<le> currentIndex (prompt_run (evs @ evs') (TerminalPrompt pst))
   \<and> (typeWriter (Some tw) (Some el) cfg = Inr t \<longrightarrow>
        index (typeWriter_ticks tw cfg n (typeWriter_started t)) \<le> length tw
        \<and> index (typeWriter_ticks tw cfg n (typeWriter_started t))
            \<le> index (typeWriter_ticks tw cfg (n + m) (typeWriter_started t)))"
proof (intro conjI impI)
  show "indexRef (hook_run tx key es (useTypewriterAnimation tx key st)) \<le> length tx"
    by (rule hook_index_bounded)
  show "indexRef (hook_run tx key es (useTypewriterAnimation tx key st))
       \<le> indexRef (hook_run tx key (es @ es') (useTypewriterAnimation tx key st))"
    by (rule hook_index_monotone)
  show "currentIndex (prompt_run evs (TerminalPrompt pst)) \<le> length fullText"
    by (rule prompt_index_bounded)
  show "currentIndex (prompt_run evs (TerminalPrompt pst))
       \<le> currentIndex (prompt_run (evs @ evs') (TerminalPrompt pst))"
    by (rule prompt_index_monotone)
next
  assume a: "typeWriter (Some tw) (Some el) cfg = Inr t"
  show "index (typeWriter_ticks tw cfg n (typeWriter_started t)) \<le> length tw"
    using typeWriter_index [OF a, of n m] by (rule conjunct1)
next
  assume a: "typeWriter (Some tw) (Some el) cfg = Inr t"
  show "index (typeWriter_ticks tw cfg n (typeWriter_started t))
            \<le> index (typeWriter_ticks tw cfg (n + m) (typeWriter_started t))"
    using typeWriter_index [OF a, of n m] by (rule conjunct2)
qed

section \<open>The prompt types its text to the end\<close>

lemma prompt_commit_one_pass:
  assumes "p_rendered s \<noteq> Some (currentIndex s, p_hasPlayed s)"
    "\<not> truthy (getItem ''promptPlayed'' (p_storage s))" "currentIndex s < length fullText"
  shows "prompt_commit s = prompt_pass s"
proof -
  have "p_rendered (prompt_pass s) = Some (currentIndex (prompt_pass s), p_hasPlayed (prompt_pass s))"
    using assms(2,3) by (simp add: prompt_pass_fields)
  then have "prompt_commit (prompt_pass s) = prompt_pass s"
    by (subst prompt_commit.simps) simp
  with assms(1) show ?thesis
    by (subst prompt_commit.simps) simp
qed

lemma fullText_nonempty: "0 < length fullText"
  by (simp add: fullText_def)

lemma typing_at_mount:
  assumes "\<not> truthy (getItem ''promptPlayed'' st)"
  shows "typing_at st 0 (TerminalPrompt st)"
proof -
  define s0 where "s0 = \<lparr>p_displayText = [], currentIndex = 0, p_hasPlayed = False, p_rendered = None,
        p_cleanup = None, key_handler = None, p_timers = no_timers, p_storage = st,
        p_mounted = True\<rparr>"
  have "prompt_commit s0 = prompt_pass s0"
    using assms fullText_nonempty by (intro prompt_commit_one_pass) (simp_all add: s0_def)
  then have eq: "TerminalPrompt st = prompt_pass s0"
    by (simp add: TerminalPrompt_def s0_def)
  show ?thesis
    unfolding typing_at_def using assms fullText_nonempty prompt_mount_good [of st]
    by (simp add: eq prompt_pass_fields typing_cleanup_run_fields s0_def no_timers_def)
qed

lemma typing_at_step:
  assumes "typing_at st k s" "Suc k < length fullText" "\<not> truthy (getItem ''promptPlayed'' st)"
  shows "typing_at st (Suc k) (prompt_fire (Suc k) s)"
proof -
  from assms(1) have good: "prompt_good s" and idx: "currentIndex s = k" and np: "\<not> p_hasPlayed s"
    and mounted: "p_mounted s" and st: "p_storage s = st"
    and pend: "pending (p_timers s) (Suc k) = Some k" and nid: "next_id (p_timers s) = k + 2"
    by (simp_all add: typing_at_def)
  from good have settled: "p_rendered s = Some (currentIndex s, p_hasPlayed s)"
    and inv: "prompt_inv s"
    by (simp_all add: prompt_good_def)
  from inv pend have cl: "p_cleanup s = Some (Suc k)"
    unfolding prompt_inv_def by blast
  define s2 where "s2 = s\<lparr>p_timers := clearTimeout (Suc k) (p_timers s),
     p_displayText := p_displayText s @ char_at fullText k, currentIndex := Suc (currentIndex s)\<rparr>"
  have fire: "prompt_fire (Suc k) s = prompt_commit s2"
    using pend mounted by (simp add: prompt_fire_def Let_def s2_def)
  have "prompt_commit s2 = prompt_pass s2"
    using settled assms(2,3) idx st by (intro prompt_commit_one_pass) (simp_all add: s2_def)
  with fire have eq: "prompt_fire (Suc k) s = prompt_pass s2"
    by simp
  have g: "prompt_good (prompt_fire (Suc k) s)"
    using prompt_fire_good [OF good] by simp
  show ?thesis
    unfolding typing_at_def using g assms(2,3) idx np mounted st nid cl
    by (simp add: eq prompt_pass_fields typing_cleanup_run_fields s2_def clearTimeout_def)
qed

lemma typing_at_run:
  assumes "\<not> truthy (getItem ''promptPlayed'' st)"
  shows "k < length fullText \<Longrightarrow>
         typing_at st k (prompt_run (map PromptTimer [1..<Suc k]) (TerminalPrompt st))"
proof (induction k)
  case 0
  with typing_at_mount [OF assms] show ?case by simp
next
  case (Suc k)
  then have "typing_at st k (prompt_run (map PromptTimer [1..<Suc k]) (TerminalPrompt st))"
    by simp
  from typing_at_step [OF this Suc.prems assms] show ?case
    by (simp add: prompt_run_append)
qed

lemma prompt_typed_to_end:
  assumes "\<not> truthy (getItem ''promptPlayed'' st)"
  shows "currentIndex (prompt_run (map PromptTimer [1..<Suc (length fullText)]) (TerminalPrompt st))
         = length fullText"
proof -
  obtain k where k: "length fullText = Suc k"
    using fullText_nonempty by (cases "length fullText") simp_all
  define s where "s = prompt_run (map PromptTimer [1..<Suc k]) (TerminalPrompt st)"
  have t: "typing_at st k s"
    unfolding s_def using assms by (rule typing_at_run) (simp add: k)
  then have good: "prompt_good s" and idx: "currentIndex s = k"
    and pend: "pending (p_timers s) (Suc k) = Some k"
    by (simp_all add: typing_at_def)
  from prompt_fire_good [OF good, of "Suc k"] pend idx
  have g: "prompt_good (prompt_fire (Suc k) s)" and lt: "k < currentIndex (prompt_fire (Suc k) s)"
    by simp_all
  from g have "prompt_inv (prompt_fire (Suc k) s)"
    unfolding prompt_good_def by (rule conjunct1)
  then have "currentIndex (prompt_fire (Suc k) s) \<le> length fullText"
    unfolding prompt_inv_def by (rule conjunct1)
  with lt have e: "currentIndex (prompt_fire (Suc k) s) = Suc k"
    by (simp add: k)
  have "prompt_run (map PromptTimer [1..<Suc (Suc k)]) (TerminalPrompt st) = prompt_fire (Suc k) s"
    by (simp add: s_def prompt_run_append)
  with e show ?thesis
    by (simp add: k)
qed

theorem reveal_index_monotone_bounded_witness:
  "typeWriter (Some demo_text) (Some demo_element) DEFAULT_CONFIG
     = Inr ((typing_init demo_element)\<lparr>interval := True\<rparr>)
   \<and> length demo_text = 2
   \<and> index (typeWriter_ticks demo_text DEFAULT_CONFIG (Suc 0)
        (typeWriter_started ((typing_init demo_element)\<lparr>interval := True\<rparr>))) = 1
   \<and> index (typeWriter_ticks demo_text DEFAULT_CONFIG (Suc 0 + 4)
        (typeWriter_started ((typing_init demo_element)\<lparr>interval := True\<rparr>))) = 2
   \<and> indexRef (hook_run demo_text ''k'' [HookTimer 1 True]
        (useTypewriterAnimation demo_text ''k'' fresh_session)) = 1
   \<and> 1 \<le> indexRef (hook_run demo_text ''k'' ([HookTimer 1 True] @ [HookSkip])
        (useTypewriterAnimation demo_text ''k'' fresh_session))
   \<and> currentIndex (prompt_run [] (TerminalPrompt fresh_session))
       \<le> currentIndex (prompt_run ([] @ [PromptKey]) (TerminalPrompt fresh_session))"
proof -
  have tw: "typeWriter (Some demo_text) (Some demo_element) DEFAULT_CONFIG
     = Inr ((typing_init demo_element)\<lparr>interval := True\<rparr>)"
    by (simp add: typeWriter_def falsy_text_def demo_text_def str_def DEFAULT_CONFIG_def)
  have h: "indexRef (hook_run demo_text ''k'' [HookTimer 1 True]
        (useTypewriterAnimation demo_text ''k'' fresh_session)) = 1"
    by (simp only: hook_run.simps hook_step.simps demo_first_tick) simp
  have ticks: "index (typeWriter_ticks demo_text DEFAULT_CONFIG (Suc 0)
        (typeWriter_started ((typing_init demo_element)\<lparr>interval := True\<rparr>))) = 1"
    "index (typeWriter_ticks demo_text DEFAULT_CONFIG (Suc 0 + 4)
        (typeWriter_started ((typing_init demo_element)\<lparr>interval := True\<rparr>))) = 2"
    "length demo_text = 2"
    by (simp_all add: eval_nat_numeral typeWriter_started_def typeWriter_tick_def type_char_def
        finish_typing_def typing_init_def demo_text_def str_def Let_def)
  from reveal_index_monotone_bounded
    [of demo_text "''k''" "[HookTimer 1 True]" fresh_session "[HookSkip]" "[]" fresh_session
        "[PromptKey]" demo_text demo_element DEFAULT_CONFIG
        "(typing_init demo_element)\<lparr>interval := True\<rparr>" "Suc 0" 4]
    tw h ticks
  show ?thesis
    by simp
qed

section \<open>Completion\<close>

lemma hook_complete_unskipped:
  assumes "HookSkip \<notin> set es"
    "indexRef (hook_run tx key es (useTypewriterAnimation tx key st)) = length tx"
  shows "h_isComplete (hook_run tx key es (useTypewriterAnimation tx key st))
       \<and> truthy (getItem key (h_storage (hook_run tx key es (useTypewriterAnimation tx key st))))"
proof -
  have "hook_good tx key (hook_run tx key es (useTypewriterAnimation tx key st))"
    using run_good [OF mount_good assms(1)] by (rule conjunct1)
  from hook_good_complete [OF this assms(2)] show ?thesis .
qed

lemma hook_complete_mounted:
  assumes "h_mounted (hook_run tx key es (useTypewriterAnimation tx key st))"
    "indexRef (hook_run tx key es (useTypewriterAnimation tx key st)) = length tx"
  shows "h_isComplete (hook_run tx key es (useTypewriterAnimation tx key st))
       \<and> truthy (getItem key (h_storage (hook_run tx key es (useTypewriterAnimation tx key st))))"
proof -
  have "hook_safe tx key (hook_run tx key es (useTypewriterAnimation tx key st))"
    using run_safe [OF mount_safe] by (rule conjunct1)
  from safe_good [OF this assms(1)]
  have "hook_good tx key (hook_run tx key es (useTypewriterAnimation tx key st))" .
  from hook_good_complete [OF this assms(2)] show ?thesis .
qed

lemma prompt_complete:
  assumes "currentIndex (prompt_run evs (TerminalPrompt pst)) = length fullText"
  shows "p_hasPlayed (prompt_run evs (TerminalPrompt pst))
       \<and> truthy (getItem ''promptPlayed'' (p_storage (prompt_run evs (TerminalPrompt pst))))"
proof -
  have "prompt_good (prompt_run evs (TerminalPrompt pst))"
    using prompt_run_good [OF prompt_mount_good] by (rule conjunct1)
  from prompt_good_complete [OF this assms] show ?thesis .
qed

lemma complete_stores_flag:
  assumes "\<not> isSkipped c \<and> \<not> isComplete c"
  shows "isComplete (complete c)
       \<and> getItem (storageKey (config c)) (storage (complete c)) = Some ''true''"
  using assms by (simp add: complete_def Let_def hideIntro_fields getItem_def setItem_def)

text \<open>
  Why the run must be free of \<open>skip\<close>, or the hook mounted: the \<open>skip\<close> closure of an
  unmounted hook still moves the index to the end and stores the flag, but React drops
  its state updates, so the hook is never complete.
\<close>

lemma skip_after_unmount:
  "indexRef (hook_run demo_text ''k'' [HookTimer 1 True, HookUnmount, HookSkip]
      (useTypewriterAnimation demo_text ''k'' fresh_session)) = length demo_text
   \<and> \<not> h_isComplete (hook_run demo_text ''k'' [HookTimer 1 True, HookUnmount, HookSkip]
      (useTypewriterAnimation demo_text ''k'' fresh_session))
   \<and> displayText (hook_run demo_text ''k'' [HookTimer 1 True, HookUnmount, HookSkip]
      (useTypewriterAnimation demo_text ''k'' fresh_session)) = [111]"
  by (simp only: hook_run.simps hook_step.simps demo_first_tick)
     (simp add: hook_unmount_def typewriter_cleanup_def hook_skip_def clearTimeout_def Let_def
      demo_text_def str_def)

text \<open>
  C5: in every run of \<open>useTypewriterAnimation\<close> in which \<open>skip\<close> is not called, a state
  whose reveal index has reached the length of the text is complete and has the
  session flag set; the same holds of every state of a mounted hook, whatever was
  called before, and of every state of \<open>TerminalPrompt\<close> (\<open>hasPlayed\<close>); and \<open>complete\<close>
  on a running intro controller marks it complete and stores the flag.
\<close>

theorem natural_completion_sets_flag:
  "(HookSkip \<notin> set es
      \<and> indexRef (hook_run tx key es (useTypewriterAnimation tx key st)) = length tx \<longrightarrow>
      h_isComplete (hook_run tx key es (useTypewriterAnimation tx key st))
      \<and> truthy (getItem key (h_storage (hook_run tx key es (useTypewriterAnimation tx key st)))))
   \<and> (h_mounted (hook_run tx key es (useTypewriterAnimation tx key st))
      \<and> indexRef (hook_run tx key es (useTypewriterAnimation tx key st)) = length tx \<longrightarrow>
      h_isComplete (hook_run tx key es (useTypewriterAnimation tx key st))
      \<and> truthy (getItem key (h_storage (hook_run tx key es (useTypewriterAnimation tx key st)))))
   \<and> (currentIndex (prompt_run evs (TerminalPrompt pst)) = length fullText \<longrightarrow>
        p_hasPlayed (prompt_run evs (TerminalPrompt pst))
        \<and> truthy (getItem ''promptPlayed'' (p_storage (prompt_run evs (TerminalPrompt pst)))))
   \<and> (\<not> isSkipped c \<and> \<not> isComplete c \<longrightarrow>
        isComplete (complete c)
        \<and> getItem (storageKey (config c)) (storage (complete c)) = Some ''true'')"
  using hook_complete_unskipped [of es tx key st] hook_complete_mounted [of tx key es st]
    prompt_complete [of evs pst] complete_stores_flag [of c]
  by blast

theorem natural_completion_sets_flag_witness:
  "indexRef (hook_run demo_text ''k'' [HookTimer 1 True, HookTimer 2 True]
      (useTypewriterAnimation demo_text ''k'' fresh_session)) = length demo_text
   \<and> HookSkip \<notin> set [HookTimer 1 True, HookTimer 2 True]
   \<and> h_mounted (hook_run demo_text ''k'' [HookTimer 1 True, HookTimer 2 True]
        (useTypewriterAnimation demo_text ''k'' fresh_session))
   \<and> h_isComplete (hook_run demo_text ''k'' [HookTimer 1 True, HookTimer 2 True]
        (useTypewriterAnimation demo_text ''k'' fresh_session))
   \<and> truthy (getItem ''k'' (h_storage (hook_run demo_text ''k'' [HookTimer 1 True, HookTimer 2 True]
        (useTypewriterAnimation demo_text ''k'' fresh_session))))
   \<and> currentIndex (prompt_run (map PromptTimer [1..<Suc (length fullText)]) (TerminalPrompt fresh_session))
       = length fullText
   \<and> p_hasPlayed (prompt_run (map PromptTimer [1..<Suc (length fullText)]) (TerminalPrompt fresh_session))
   \<and> truthy (getItem ''promptPlayed''
        (p_storage (prompt_run (map PromptTimer [1..<Suc (length fullText)]) (TerminalPrompt fresh_session))))
   \<and> isComplete (complete (snd (init True (projr (IntroController demo_intro_config demo_page fresh_session)))))
   \<and> getItem ''terminalIntroShown''
        (storage (complete (snd (init True (projr (IntroController demo_intro_config demo_page fresh_session))))))
       = Some ''true''"
proof -
  have nt: "\<not> truthy (getItem ''promptPlayed'' fresh_session)"
    by (simp add: truthy_def getItem_def fresh_session_def)
  have c: "\<not> isSkipped (snd (init True (projr (IntroController demo_intro_config demo_page fresh_session))))
      \<and> \<not> isComplete (snd (init True (projr (IntroController demo_intro_config demo_page fresh_session))))"
    "storageKey (config (snd (init True (projr (IntroController demo_intro_config demo_page fresh_session)))))
      = ''terminalIntroShown''"
    by (simp_all add: IntroController_def demo_intro_config_def intro_defaults_def demo_page_def
        falsy_id_def init_def getElementById_def Let_def attachKeyHandler_def attachClickHandler_def)
  from natural_completion_sets_flag
    [where tx = demo_text and key = "''k''" and es = "[HookTimer 1 True, HookTimer 2 True]"
       and st = fresh_session and evs = "map PromptTimer [1..<Suc (length fullText)]"
       and pst = fresh_session
       and c = "snd (init True (projr (IntroController demo_intro_config demo_page fresh_session)))"]
    demo_typed demo_typed_mounted prompt_typed_to_end [OF nt] c
  show ?thesis
    by simp
qed

section \<open>Clearing the timers\<close>

lemma hook_good_played:
  assumes "hook_good tx key s" "h_isComplete s"
  shows "pending (h_timers s) = Map.empty \<and> displayText s = tx \<and> indexRef s = length tx"
proof -
  from assms(1) have inv: "hook_inv tx key s"
    and r: "rendered s = Some (hasPlayed s, displayText s, h_isComplete s)"
    by (simp_all add: hook_good_def snapshot_def)
  from inv have q: "\<not> typing_cleanup s" if "rendered s = Some r" "fst r \<or> snd (snd r)" for r
    using that unfolding hook_inv_def by blast
  from inv have p: "typing_cleanup s" if "pending (h_timers s) i \<noteq> None" for i
    using that unfolding hook_inv_def by blast
  from inv have pl: "h_isComplete s \<longrightarrow> hasPlayed s"
    unfolding hook_inv_def by blast
  from inv have rd: "init_deps s = Some (fst r)" if "rendered s = Some r" for r
    using that unfolding hook_inv_def by blast
  from inv have deps: "init_deps s = Some True \<longrightarrow> indexRef s = length tx \<and> displayText s = tx"
    unfolding hook_inv_def by blast
  have nc: "\<not> typing_cleanup s"
    using q [OF r] assms(2) by simp
  have "pending (h_timers s) i = None" for i
    using p [of i] nc by blast
  then have e: "pending (h_timers s) = Map.empty"
    by (intro ext)
  from pl assms(2) rd [OF r] have "init_deps s = Some True"
    by simp
  with deps e show ?thesis
    by simp
qed

lemma skip_completes:
  assumes "hook_good tx key s" "h_mounted s"
  shows "h_isComplete (hook_skip tx key s)"
proof -
  from skip_good [OF assms] have g: "hook_good tx key (hook_skip tx key s)"
    by (rule conjunct1)
  show ?thesis
  proof (cases "h_isComplete s")
    case True
    with assms(1) have "hook_skip tx key s = s"
      by (simp add: hook_skip_def hook_good_def snapshot_def)
    with True show ?thesis by simp
  next
    case False
    from assms(1) have inv: "hook_inv tx key s" and settled: "rendered s = Some (snapshot s)"
      by (simp_all add: hook_good_def)
    from g have "h_isComplete (hook_skip tx key s) \<longrightarrow> hasPlayed (hook_skip tx key s)"
      unfolding hook_good_def hook_inv_def by blast
    define s1 where "s1 = (case timeoutRef s of None \<Rightarrow> s
                           | Some i \<Rightarrow> s\<lparr>h_timers := clearTimeout i (h_timers s)\<rparr>)"
    define s3 where "s3 = markAsPlayed key (s1\<lparr>displayText := tx, indexRef := length tx, h_isComplete := True\<rparr>)"
    have skip: "hook_skip tx key s = hook_commit tx key s3"
      using False settled assms(2) by (simp add: hook_skip_def snapshot_def s3_def s1_def Let_def)
    have i3: "indexRef s3 = length tx"
      by (simp add: s3_def markAsPlayed_def)
    have none: "pending (h_timers s1) j = None" for j
      using inv by (cases "pending (h_timers s) j")
        (auto simp: hook_inv_def s1_def clearTimeout_def split: option.split)
    have s1: "next_id (h_timers s1) = next_id (h_timers s)" "rendered s1 = rendered s"
      "init_deps s1 = init_deps s" "typing_cleanup s1 = typing_cleanup s" "h_mounted s1 = h_mounted s"
      by (simp_all add: s1_def clearTimeout_def split: option.split)
    have inv3: "hook_inv tx key s3"
      using inv none s1 unfolding hook_inv_def
      by (simp add: s3_def markAsPlayed_def truthy_setItem)
    have "hook_done tx s3"
      by (simp add: hook_done_def s3_def markAsPlayed_def)
    then have dn: "rendered s3 = Some (snapshot s3) \<longrightarrow> hook_done tx s3"
      by simp
    from hook_commit_inv [OF inv3 dn] have le: "indexRef s3 \<le> indexRef (hook_commit tx key s3)"
      by simp
    from g have "hook_inv tx key (hook_skip tx key s)"
      unfolding hook_good_def by (rule conjunct1)
    then have "indexRef (hook_skip tx key s) \<le> length tx"
      unfolding hook_inv_def by (rule conjunct1)
    with le i3 have "indexRef (hook_skip tx key s) = length tx"
      unfolding skip by simp
    from hook_good_complete [OF g this] show ?thesis
      by (rule conjunct1)
  qed
qed

lemma quiet_step:
  assumes "hook_quiet tx key s"
  shows "hook_quiet tx key (hook_step tx key e s) \<and> displayText (hook_step tx key e s) = displayText s"
proof (cases e)
  case (HookTimer i eager)
  with assms show ?thesis
    by (simp add: hook_quiet_def hook_fire_def)
next
  case HookSkip
  show ?thesis
  proof (cases "h_mounted s")
    case False
    from assms have "hook_safe tx key s"
      by (simp add: hook_quiet_def)
    from skip_unmounted [OF this False] HookSkip show ?thesis
      by (simp add: hook_quiet_def)
  next
    case True
    with assms have "h_isComplete s" and "rendered s = Some (snapshot s)"
      by (simp_all add: hook_quiet_def hook_safe_def)
    then have "hook_skip tx key s = s"
      by (simp add: hook_skip_def snapshot_def)
    with HookSkip assms show ?thesis by simp
  qed
next
  case HookUnmount
  show ?thesis
  proof (cases "h_mounted s")
    case False
    with HookUnmount assms show ?thesis by simp
  next
    case True
    from assms have sf: "hook_safe tx key s" and e: "pending (h_timers s) = Map.empty"
      by (simp_all add: hook_quiet_def)
    from safe_good [OF sf True] have g: "hook_good tx key s" .
    from unmount_good [OF g] have "hook_good tx key (hook_unmount s)"
      by (rule conjunct1)
    then have g': "hook_safe tx key (hook_unmount s)"
      by (rule good_safe)
    from g have "hook_inv tx key s"
      by (simp add: hook_good_def)
    then have "pending (h_timers (typewriter_cleanup s)) = Map.empty"
      by (rule cleanup_clears)
    then have "pending (h_timers (hook_unmount s)) = Map.empty"
      by (simp add: hook_unmount_def)
    with g' HookUnmount True show ?thesis
      by (simp add: hook_quiet_def hook_unmount_def typewriter_cleanup_fields)
  qed
qed

lemma quiet_run:
  "hook_quiet tx key s \<Longrightarrow>
   hook_quiet tx key (hook_run tx key es s) \<and> displayText (hook_run tx key es s) = displayText s"
proof (induction es arbitrary: s)
  case Nil
  then show ?case by simp
next
  case (Cons e es)
  from quiet_step [OF Cons.prems, of e]
  have q: "hook_quiet tx key (hook_step tx key e s)"
    and d: "displayText (hook_step tx key e s) = displayText s"
    by simp_all
  from Cons.IH [OF q] d show ?case by simp
qed

lemma quiet_after_skip:
  assumes "hook_safe tx key s"
  shows "hook_quiet tx key (hook_step tx key HookSkip s)"
proof (cases "h_mounted s")
  case False
  from skip_unmounted [OF assms False] show ?thesis
    by (simp add: hook_quiet_def)
next
  case True
  from safe_good [OF assms True] have g0: "hook_good tx key s" .
  from skip_good [OF g0 True] have g: "hook_good tx key (hook_skip tx key s)"
    by (rule conjunct1)
  have c: "h_isComplete (hook_skip tx key s)"
    using g0 True by (rule skip_completes)
  from hook_good_played [OF g c] good_safe [OF g] c show ?thesis
    by (simp add: hook_quiet_def)
qed

lemma quiet_after_unmount:
  assumes "hook_safe tx key s"
  shows "hook_quiet tx key (hook_step tx key HookUnmount s)"
proof (cases "h_mounted s")
  case False
  with assms show ?thesis
    by (simp add: hook_quiet_def hook_safe_def)
next
  case True
  from safe_good [OF assms True] have g0: "hook_good tx key s" .
  from unmount_good [OF g0] have g: "hook_good tx key (hook_unmount s)"
    by (rule conjunct1)
  from g0 have "hook_inv tx key s"
    by (simp add: hook_good_def)
  then have "pending (h_timers (typewriter_cleanup s)) = Map.empty"
    by (rule cleanup_clears)
  then have "pending (h_timers (hook_unmount s)) = Map.empty"
    by (simp add: hook_unmount_def)
  with good_safe [OF g] True show ?thesis
    by (simp add: hook_quiet_def hook_unmount_def)
qed

lemma stop_clears_recorded:
  assumes "timeoutId a = Some i"
  shows "pending (gtimers (stop a)) i = None \<and> timeoutId (stop a) = None
       \<and> fire i found (stop a) = stop a"
proof -
  have p: "pending (gtimers (stop a)) i = None"
    using assms by (simp add: stop_def Let_def clearTimeout_def)
  then have "fire i found (stop a) = stop a"
    by (simp add: fire_def)
  with p show ?thesis
    by (simp add: stop_fields)
qed

lemma stop_keeps_duration:
  assumes "pending (gtimers b) j = Some GlitchEnd" "timeoutId b \<noteq> Some j"
  shows "pending (gtimers (stop b)) j = Some GlitchEnd
       \<and> executed (fire j found (stop b)) = executed b
       \<and> scheduled (fire j found (stop b)) = scheduled b
       \<and> \<not> glitchClass (fire j found (stop b))
       \<and> \<not> isRunning (fire j found (stop b))"
proof -
  have p: "pending (gtimers (stop b)) j = Some GlitchEnd"
    using assms by (cases "timeoutId b") (auto simp: stop_def Let_def clearTimeout_def)
  have "fire j found (stop b)
        = scheduleNextGlitch ((stop b)\<lparr>gtimers := clearTimeout j (gtimers (stop b)), glitchClass := False\<rparr>)"
    using p by (simp add: fire_def)
  also have "\<dots> = (stop b)\<lparr>gtimers := clearTimeout j (gtimers (stop b)), glitchClass := False\<rparr>"
    by (rule scheduleNextGlitch_stopped) (simp add: stop_fields)
  finally have "fire j found (stop b)
        = (stop b)\<lparr>gtimers := clearTimeout j (gtimers (stop b)), glitchClass := False\<rparr>" .
  with p show ?thesis
    by (simp add: stop_fields)
qed

lemma glitch_inv_init: "glitch_inv GlitchAnimator"
  by (simp add: glitch_inv_def GlitchAnimator_def no_timers_def)

lemma glitch_inv_schedule: "glitch_inv a \<Longrightarrow> glitch_inv (scheduleNextGlitch a)"
  by (simp add: glitch_inv_def scheduleNextGlitch_def setTimeout_def)

lemma glitch_inv_stop: "glitch_inv a \<Longrightarrow> glitch_inv (stop a)"
  by (cases "timeoutId a") (simp_all add: glitch_inv_def stop_def Let_def clearTimeout_def)

lemma glitch_inv_start: "glitch_inv a \<Longrightarrow> glitch_inv (start a)"
proof -
  assume a: "glitch_inv a"
  then have "glitch_inv (a\<lparr>isRunning := True\<rparr>)"
    by (simp add: glitch_inv_def)
  then have "glitch_inv (scheduleNextGlitch (a\<lparr>isRunning := True\<rparr>))"
    by (rule glitch_inv_schedule)
  with a show ?thesis
    by (simp add: start_def)
qed

lemma glitch_inv_triggerOnce: "glitch_inv a \<Longrightarrow> glitch_inv (triggerOnce found a)"
  by (auto simp add: glitch_inv_def triggerOnce_def setTimeout_def)

lemma glitch_inv_execute: "glitch_inv a \<Longrightarrow> glitch_inv (executeGlitch found a)"
proof (cases found)
  case True
  assume "glitch_inv a"
  with True show ?thesis
    by (auto simp add: glitch_inv_def executeGlitch_def setTimeout_def)
next
  case False
  assume "glitch_inv a"
  then have "glitch_inv (stop a)"
    by (rule glitch_inv_stop)
  with False show ?thesis
    by (simp add: executeGlitch_def)
qed

lemma glitch_inv_clear: "glitch_inv a \<Longrightarrow> glitch_inv (a\<lparr>gtimers := clearTimeout i (gtimers a)\<rparr>)"
  by (simp add: glitch_inv_def clearTimeout_def)

lemma glitch_inv_fire: "glitch_inv a \<Longrightarrow> glitch_inv (fire i found a)"
proof (cases "pending (gtimers a) i")
  case None
  assume "glitch_inv a"
  with None show ?thesis
    by (simp add: fire_def)
next
  case (Some k)
  assume "glitch_inv a"
  then have c: "glitch_inv (a\<lparr>gtimers := clearTimeout i (gtimers a)\<rparr>)"
    by (rule glitch_inv_clear)
  have "glitch_inv (timeout_callback k found (a\<lparr>gtimers := clearTimeout i (gtimers a)\<rparr>))"
  proof (cases k)
    case NextGlitch
    with glitch_inv_execute [OF c] show ?thesis by simp
  next
    case GlitchEnd
    from c have "glitch_inv (a\<lparr>gtimers := clearTimeout i (gtimers a), glitchClass := False\<rparr>)"
      by (simp add: glitch_inv_def)
    from glitch_inv_schedule [OF this] GlitchEnd show ?thesis by simp
  next
    case OnceEnd
    from c have "glitch_inv (a\<lparr>gtimers := clearTimeout i (gtimers a), glitchClass := False\<rparr>)"
      by (simp add: glitch_inv_def)
    with OnceEnd show ?thesis by simp
  qed
  with Some show ?thesis
    by (simp add: fire_def)
qed

lemma glitch_inv_step: "glitch_inv a \<Longrightarrow> glitch_inv (glitch_step e a)"
  by (cases e) (simp_all add: glitch_inv_start glitch_inv_stop glitch_inv_triggerOnce glitch_inv_fire)

lemma glitch_inv_run: "glitch_inv a \<Longrightarrow> glitch_inv (glitch_run es a)"
  by (induction es arbitrary: a) (simp_all add: glitch_inv_step)

text \<open>
  In every state the animator reaches from its construction, a pending glitch-duration
  timeout is not the one recorded in \<open>timeoutId\<close>: \<open>stop\<close> never clears it.
\<close>

lemma duration_timeout_not_recorded:
  assumes "pending (gtimers (glitch_run es GlitchAnimator)) j = Some GlitchEnd"
  shows "timeoutId (glitch_run es GlitchAnimator) \<noteq> Some j"
proof -
  have "glitch_inv (glitch_run es GlitchAnimator)"
    using glitch_inv_init by (rule glitch_inv_run)
  with assms show ?thesis
    unfolding glitch_inv_def by blast
qed

lemma stop_keeps_duration_reachable:
  assumes "pending (gtimers (glitch_run es GlitchAnimator)) j = Some GlitchEnd"
  shows "pending (gtimers (stop (glitch_run es GlitchAnimator))) j = Some GlitchEnd
       \<and> executed (fire j found (stop (glitch_run es GlitchAnimator))) = executed (glitch_run es GlitchAnimator)
       \<and> scheduled (fire j found (stop (glitch_run es GlitchAnimator))) = scheduled (glitch_run es GlitchAnimator)
       \<and> \<not> glitchClass (fire j found (stop (glitch_run es GlitchAnimator)))
       \<and> \<not> isRunning (fire j found (stop (glitch_run es GlitchAnimator)))"
  using stop_keeps_duration [OF assms duration_timeout_not_recorded [OF assms]] .

text \<open>
  C7, as the code has it. In \<open>useTypewriterAnimation\<close>, after \<open>skip\<close> and after the
  unmount no timeout is pending, and whatever happens afterwards the displayed text no
  longer changes. \<open>GlitchAnimator.stop\<close> clears the timeout recorded in \<open>timeoutId\<close> and
  resets the field, so that timeout never fires; a pending glitch-duration timeout
  that is not the recorded one stays pending, and when it fires on the stopped animator
  it removes the class and neither executes nor schedules a glitch.
\<close>

theorem skip_unmount_stop_clear_timers:
  "pending (h_timers (hook_step tx key HookSkip (hook_run tx key es (useTypewriterAnimation tx key st))))
     = Map.empty
   \<and> pending (h_timers (hook_step tx key HookUnmount (hook_run tx key es (useTypewriterAnimation tx key st))))
     = Map.empty
   \<and> displayText (hook_run tx key es'
        (hook_step tx key HookSkip (hook_run tx key es (useTypewriterAnimation tx key st))))
     = displayText (hook_step tx key HookSkip (hook_run tx key es (useTypewriterAnimation tx key st)))
   \<and> displayText (hook_run tx key es'
        (hook_step tx key HookUnmount (hook_run tx key es (useTypewriterAnimation tx key st))))
     = displayText (hook_step tx key HookUnmount (hook_run tx key es (useTypewriterAnimation tx key st)))
   \<and> (timeoutId a = Some i \<longrightarrow>
        pending (gtimers (stop a)) i = None \<and> timeoutId (stop a) = None
        \<and> fire i found (stop a) = stop a)
   \<and> (pending (gtimers b) j = Some GlitchEnd \<and> timeoutId b \<noteq> Some j \<longrightarrow>
        pending (gtimers (stop b)) j = Some GlitchEnd
        \<and> executed (fire j found (stop b)) = executed b
        \<and> scheduled (fire j found (stop b)) = scheduled b
        \<and> \<not> glitchClass (fire j found (stop b))
        \<and> \<not> isRunning (fire j found (stop b)))"
proof -
  define s where "s = hook_run tx key es (useTypewriterAnimation tx key st)"
  have g: "hook_safe tx key s"
    unfolding s_def using run_safe [OF mount_safe] by (rule conjunct1)
  have qs: "hook_quiet tx key (hook_step tx key HookSkip s)"
    using g by (rule quiet_after_skip)
  have qu: "hook_quiet tx key (hook_step tx key HookUnmount s)"
    using g by (rule quiet_after_unmount)
  have 1: "pending (h_timers (hook_step tx key HookSkip s)) = Map.empty"
    using qs by (simp add: hook_quiet_def)
  have 2: "pending (h_timers (hook_step tx key HookUnmount s)) = Map.empty"
    using qu by (simp add: hook_quiet_def)
  have 3: "displayText (hook_run tx key es' (hook_step tx key HookSkip s))
         = displayText (hook_step tx key HookSkip s)"
    using quiet_run [OF qs] by (rule conjunct2)
  have 4: "displayText (hook_run tx key es' (hook_step tx key HookUnmount s))
         = displayText (hook_step tx key HookUnmount s)"
    using quiet_run [OF qu] by (rule conjunct2)
  have 5: "timeoutId a = Some i \<longrightarrow>
        pending (gtimers (stop a)) i = None \<and> timeoutId (stop a) = None
        \<and> fire i found (stop a) = stop a"
    using stop_clears_recorded [of a i found] by (rule impI)
  have 6: "pending (gtimers b) j = Some GlitchEnd \<and> timeoutId b \<noteq> Some j \<longrightarrow>
        pending (gtimers (stop b)) j = Some GlitchEnd
        \<and> executed (fire j found (stop b)) = executed b
        \<and> scheduled (fire j found (stop b)) = scheduled b
        \<and> \<not> glitchClass (fire j found (stop b))
        \<and> \<not> isRunning (fire j found (stop b))"
    using stop_keeps_duration [of b j found] by blast
  from 1 2 3 4 5 6 show ?thesis
    unfolding s_def by (intro conjI)
qed

text \<open>
  C7 as stated fails: \<open>stop\<close> during a glitch leaves the glitch-duration timeout pending;
  and after a \<open>stop\<close> and \<open>start\<close> during a glitch, a later \<open>stop\<close> leaves the
  older next-glitch timeout pending, which then executes a glitch.
\<close>

theorem stop_leaves_timers_pending:
  "pending (gtimers (glitch_run [Start, Fire 1 True, Stop] GlitchAnimator)) 2 = Some GlitchEnd
   \<and> pending (gtimers (glitch_run [Start, Fire 1 True, Stop, Start, Fire 2 True, Stop] GlitchAnimator)) 3
       = Some NextGlitch
   \<and> executed (glitch_run [Start, Fire 1 True, Stop, Start, Fire 2 True, Stop] GlitchAnimator) = 1
   \<and> executed (glitch_run [Start, Fire 1 True, Stop, Start, Fire 2 True, Stop, Fire 3 True] GlitchAnimator) = 2"
  by (simp add: GlitchAnimator_def start_def stop_def scheduleNextGlitch_def setTimeout_def no_timers_def
      fire_def clearTimeout_def executeGlitch_def Let_def)

theorem skip_unmount_stop_clear_timers_witness:
  "pending (h_timers (hook_run demo_text ''k'' [HookTimer 1 True]
      (useTypewriterAnimation demo_text ''k'' fresh_session))) 2 = Some ()
   \<and> pending (h_timers (hook_step demo_text ''k'' HookSkip (hook_run demo_text ''k'' [HookTimer 1 True]
      (useTypewriterAnimation demo_text ''k'' fresh_session)))) = Map.empty
   \<and> displayText (hook_run demo_text ''k'' [HookTimer 2 True]
        (hook_step demo_text ''k'' HookUnmount (hook_run demo_text ''k'' [HookTimer 1 True]
          (useTypewriterAnimation demo_text ''k'' fresh_session)))) = [111]
   \<and> timeoutId (glitch_run [Start] GlitchAnimator) = Some 1
   \<and> pending (gtimers (glitch_run [Start] GlitchAnimator)) 1 = Some NextGlitch
   \<and> pending (gtimers (stop (glitch_run [Start] GlitchAnimator))) 1 = None
   \<and> pending (gtimers (glitch_run [Start, Fire 1 True] GlitchAnimator)) 2 = Some GlitchEnd
   \<and> timeoutId (glitch_run [Start, Fire 1 True] GlitchAnimator) \<noteq> Some 2
   \<and> pending (gtimers (stop (glitch_run [Start, Fire 1 True] GlitchAnimator))) 2 = Some GlitchEnd
   \<and> executed (fire 2 True (stop (glitch_run [Start, Fire 1 True] GlitchAnimator))) = 1"
proof -
  have h: "pending (h_timers (hook_run demo_text ''k'' [HookTimer 1 True]
      (useTypewriterAnimation demo_text ''k'' fresh_session))) 2 = Some ()"
    "displayText (hook_step demo_text ''k'' HookUnmount (hook_run demo_text ''k'' [HookTimer 1 True]
          (useTypewriterAnimation demo_text ''k'' fresh_session))) = [111]"
    by (simp_all only: hook_run.simps hook_step.simps demo_first_tick)
       (simp_all add: hook_unmount_def typewriter_cleanup_def)
  have gl: "timeoutId (glitch_run [Start] GlitchAnimator) = Some 1"
    "pending (gtimers (glitch_run [Start] GlitchAnimator)) 1 = Some NextGlitch"
    "pending (gtimers (glitch_run [Start, Fire 1 True] GlitchAnimator)) 2 = Some GlitchEnd"
    "timeoutId (glitch_run [Start, Fire 1 True] GlitchAnimator) \<noteq> Some 2"
    "executed (glitch_run [Start, Fire 1 True] GlitchAnimator) = 1"
    by (simp_all add: GlitchAnimator_def start_def scheduleNextGlitch_def setTimeout_def no_timers_def
        fire_def clearTimeout_def executeGlitch_def Let_def)
  from skip_unmount_stop_clear_timers
    [of demo_text "''k''" "[HookTimer 1 True]" fresh_session "[HookTimer 2 True]"
        "glitch_run [Start] GlitchAnimator" 1 True "glitch_run [Start, Fire 1 True] GlitchAnimator" 2]
    h gl
  show ?thesis
    by simp
qed

section \<open>Mounting with the session flag set\<close>

lemma prompt_mount_played:
  assumes "truthy (getItem ''promptPlayed'' st)"
  shows "p_hasPlayed (TerminalPrompt st) \<and> p_displayText (TerminalPrompt st) = fullText
       \<and> currentIndex (TerminalPrompt st) = length fullText
       \<and> pending (p_timers (TerminalPrompt st)) = Map.empty
       \<and> next_id (p_timers (TerminalPrompt st)) = 1
       \<and> p_storage (TerminalPrompt st) = st"
proof -
  define s0 where "s0 = \<lparr>p_displayText = [], currentIndex = 0, p_hasPlayed = False, p_rendered = None,
        p_cleanup = None, key_handler = None, p_timers = no_timers, p_storage = st,
        p_mounted = True\<rparr>"
  define s1 where "s1 = prompt_pass s0"
  define s2 where "s2 = prompt_pass s1"
  have f1: "p_hasPlayed s1" "p_displayText s1 = fullText" "currentIndex s1 = length fullText"
    "p_rendered s1 = Some (0, False)" "p_cleanup s1 = None" "p_storage s1 = st"
    "next_id (p_timers s1) = 1" "pending (p_timers s1) = Map.empty"
    using assms
    by (simp_all add: s1_def prompt_pass_fields typing_cleanup_run_fields s0_def no_timers_def)
  have f2: "p_hasPlayed s2" "p_displayText s2 = fullText" "currentIndex s2 = length fullText"
    "p_rendered s2 = Some (length fullText, True)" "p_storage s2 = st"
    "next_id (p_timers s2) = 1" "pending (p_timers s2) = Map.empty"
    using assms f1
    by (simp_all add: s2_def prompt_pass_fields typing_cleanup_run_fields)
  have "prompt_commit s2 = s2"
    using f2 by (subst prompt_commit.simps) simp
  then have "prompt_commit s1 = s2"
    using f1 by (subst prompt_commit.simps) (simp add: s2_def)
  then have "prompt_commit s0 = s2"
    by (subst prompt_commit.simps) (simp add: s0_def s1_def)
  then have "TerminalPrompt st = s2"
    by (simp add: TerminalPrompt_def s0_def)
  with f2 show ?thesis
    by simp
qed

lemma removeIntro_detaches:
  "introElement s = Some e \<Longrightarrow> e \<notin> attached (document (removeIntro s))"
  by (simp add: removeIntro_def)

text \<open>
  C2, as the code has it. With the session flag set at mount, \<open>TerminalPrompt\<close> ends
  its mount completed, showing the full text, without ever having created a timeout
  and without writing to storage; \<open>IntroController.init\<close> with \<open>showOnRefresh = false\<close>
  returns \<open>false\<close>, attaches no skip handler and removes the intro element from the
  document. With \<open>showOnRefresh = true\<close> and the element present, \<open>init\<close> does not look
  at the flag: it shows the intro exactly on a page reload.
\<close>

theorem flag_set_at_mount:
  "(truthy (getItem ''promptPlayed'' st) \<longrightarrow>
      p_hasPlayed (TerminalPrompt st) \<and> p_displayText (TerminalPrompt st) = fullText
      \<and> currentIndex (TerminalPrompt st) = length fullText
      \<and> pending (p_timers (TerminalPrompt st)) = Map.empty
      \<and> next_id (p_timers (TerminalPrompt st)) = 1
      \<and> p_storage (TerminalPrompt st) = st)
   \<and> (\<not> showOnRefresh (config c) \<and> truthy (getItem (storageKey (config c)) (storage c)) \<longrightarrow>
        \<not> fst (init r c)
        \<and> listeners (snd (init r c)) = listeners c
        \<and> skipHandlers (snd (init r c)) = skipHandlers c
        \<and> storage (snd (init r c)) = storage c
        \<and> (\<forall>e. getElementById (introId (config c)) (document c) = Some e \<longrightarrow>
               e \<notin> attached (document (snd (init r c)))))
   \<and> (showOnRefresh (config c) \<and> getElementById (introId (config c)) (document c) \<noteq> None \<longrightarrow>
        fst (init r c) = r)"
proof (intro conjI)
  show "truthy (getItem ''promptPlayed'' st) \<longrightarrow>
      p_hasPlayed (TerminalPrompt st) \<and> p_displayText (TerminalPrompt st) = fullText
      \<and> currentIndex (TerminalPrompt st) = length fullText
      \<and> pending (p_timers (TerminalPrompt st)) = Map.empty
      \<and> next_id (p_timers (TerminalPrompt st)) = 1
      \<and> p_storage (TerminalPrompt st) = st"
    using prompt_mount_played [of st] by (rule impI)
next
  show "\<not> showOnRefresh (config c) \<and> truthy (getItem (storageKey (config c)) (storage c)) \<longrightarrow>
        \<not> fst (init r c)
        \<and> listeners (snd (init r c)) = listeners c
        \<and> skipHandlers (snd (init r c)) = skipHandlers c
        \<and> storage (snd (init r c)) = storage c
        \<and> (\<forall>e. getElementById (introId (config c)) (document c) = Some e \<longrightarrow>
               e \<notin> attached (document (snd (init r c))))"
    by (cases "getElementById (introId (config c)) (document c)")
       (simp_all add: init_def Let_def removeIntro_def)
next
  show "showOnRefresh (config c) \<and> getElementById (introId (config c)) (document c) \<noteq> None \<longrightarrow>
        fst (init r c) = r"
    by (cases r) (auto simp: init_def Let_def)
qed

text \<open>
  C2 as stated fails: with the default configuration and the flag set, \<open>init\<close> on a
  page reload shows the intro and attaches both skip handlers.
\<close>

theorem intro_shown_on_reload_despite_flag:
  "truthy (getItem ''terminalIntroShown'' (played_session ''terminalIntroShown''))
   \<and> fst (init True (projr (IntroController demo_intro_config demo_page (played_session ''terminalIntroShown''))))
   \<and> listeners (snd (init True (projr (IntroController demo_intro_config demo_page
        (played_session ''terminalIntroShown''))))) = [''keydown'', ''click'']
   \<and> ''intro'' \<in> attached (document (snd (init True (projr (IntroController demo_intro_config demo_page
        (played_session ''terminalIntroShown''))))))"
  by (simp add: IntroController_def demo_intro_config_def intro_defaults_def demo_page_def
      played_session_def falsy_id_def init_def getElementById_def Let_def attachKeyHandler_def
      attachClickHandler_def getItem_def truthy_def)

theorem flag_set_at_mount_witness:
  "truthy (getItem ''promptPlayed'' (played_session ''promptPlayed''))
   \<and> p_hasPlayed (TerminalPrompt (played_session ''promptPlayed''))
   \<and> next_id (p_timers (TerminalPrompt (played_session ''promptPlayed''))) = 1
   \<and> \<not> showOnRefresh (config (projr (IntroController (demo_intro_config\<lparr>showOnRefresh := False\<rparr>)
        demo_page (played_session ''terminalIntroShown''))))
   \<and> \<not> fst (init True (projr (IntroController (demo_intro_config\<lparr>showOnRefresh := False\<rparr>)
        demo_page (played_session ''terminalIntroShown''))))
   \<and> listeners (snd (init True (projr (IntroController (demo_intro_config\<lparr>showOnRefresh := False\<rparr>)
        demo_page (played_session ''terminalIntroShown''))))) = []
   \<and> ''intro'' \<notin> attached (document (snd (init True (projr (IntroController
        (demo_intro_config\<lparr>showOnRefresh := False\<rparr>) demo_page (played_session ''terminalIntroShown''))))))"
proof -
  have t: "truthy (getItem ''promptPlayed'' (played_session ''promptPlayed''))"
    by (simp add: truthy_def getItem_def played_session_def)
  have c: "\<not> showOnRefresh (config (projr (IntroController (demo_intro_config\<lparr>showOnRefresh := False\<rparr>)
        demo_page (played_session ''terminalIntroShown''))))"
    "truthy (getItem (storageKey (config (projr (IntroController (demo_intro_config\<lparr>showOnRefresh := False\<rparr>)
        demo_page (played_session ''terminalIntroShown'')))))
      (storage (projr (IntroController (demo_intro_config\<lparr>showOnRefresh := False\<rparr>)
        demo_page (played_session ''terminalIntroShown'')))))"
    "getElementById (introId (config (projr (IntroController (demo_intro_config\<lparr>showOnRefresh := False\<rparr>)
        demo_page (played_session ''terminalIntroShown'')))))
      (document (projr (IntroController (demo_intro_config\<lparr>showOnRefresh := False\<rparr>)
        demo_page (played_session ''terminalIntroShown'')))) = Some ''intro''"
    "listeners (projr (IntroController (demo_intro_config\<lparr>showOnRefresh := False\<rparr>)
        demo_page (played_session ''terminalIntroShown''))) = []"
    by (simp_all add: IntroController_def demo_intro_config_def intro_defaults_def demo_page_def
        played_session_def falsy_id_def getElementById_def getItem_def truthy_def)
  from flag_set_at_mount
    [of "played_session ''promptPlayed''"
        "projr (IntroController (demo_intro_config\<lparr>showOnRefresh := False\<rparr>)
           demo_page (played_session ''terminalIntroShown''))" True]
    t c
  show ?thesis
    by simp
qed

section \<open>Skipping the typewriter\<close>

text \<open>
  Unlike the intro controller, the hook and the prompt store the flag when a running
  animation is skipped: one \<open>setItem\<close>, and the full text on display.
\<close>

lemma hook_commit_storage:
  "hasPlayed s \<Longrightarrow> h_storage (hook_commit tx key s) = h_storage s"
proof (induction tx key s rule: hook_commit.induct)
  case (1 tx key s)
  show ?case
  proof (cases "rendered s = Some (snapshot s)")
    case True
    then show ?thesis
      by (subst hook_commit.simps) simp
  next
    case False
    have p: "hasPlayed (hook_pass tx key s)" and st: "h_storage (hook_pass tx key s) = h_storage s"
      using "1.prems" by (simp_all add: hook_pass_fields)
    have "hook_commit tx key s = hook_commit tx key (hook_pass tx key s)"
      using False by (subst hook_commit.simps) simp
    with "1.IH" [OF False p] st show ?thesis
      by simp
  qed
qed

lemma hook_skip_sets_flag_once:
  assumes "hook_good tx key s" "h_mounted s" "\<not> h_isComplete s"
  shows "setItem_log (h_storage (hook_skip tx key s)) = key # setItem_log (h_storage s)
       \<and> truthy (getItem key (h_storage (hook_skip tx key s)))
       \<and> displayText (hook_skip tx key s) = tx"
proof -
  from assms(1) have settled: "rendered s = Some (snapshot s)"
    by (simp add: hook_good_def)
  define s1 where "s1 = (case timeoutRef s of None \<Rightarrow> s
                         | Some i \<Rightarrow> s\<lparr>h_timers := clearTimeout i (h_timers s)\<rparr>)"
  define s3 where "s3 = markAsPlayed key (s1\<lparr>displayText := tx, indexRef := length tx, h_isComplete := True\<rparr>)"
  have skip: "hook_skip tx key s = hook_commit tx key s3"
    using assms(2,3) settled by (simp add: hook_skip_def snapshot_def s3_def s1_def Let_def)
  have "h_storage s1 = h_storage s"
    by (simp add: s1_def split: option.split)
  then have st: "h_storage s3 = setItem key ''true'' (h_storage s)" and p: "hasPlayed s3"
    by (simp_all add: s3_def markAsPlayed_def)
  from hook_commit_storage [OF p, of tx key] st
  have e: "h_storage (hook_skip tx key s) = setItem key ''true'' (h_storage s)"
    unfolding skip by simp
  from skip_good [OF assms(1,2)] have g: "hook_good tx key (hook_skip tx key s)"
    by (rule conjunct1)
  have c: "h_isComplete (hook_skip tx key s)"
    using assms(1,2) by (rule skip_completes)
  from hook_good_played [OF g c] have d: "displayText (hook_skip tx key s) = tx"
    by simp
  from e have l: "setItem_log (h_storage (hook_skip tx key s)) = key # setItem_log (h_storage s)"
    by (simp add: setItem_def)
  from e have t: "truthy (getItem key (h_storage (hook_skip tx key s)))"
    by (simp add: truthy_setItem)
  from l t d show ?thesis
    by simp
qed

lemma prompt_commit_storage:
  "truthy (getItem ''promptPlayed'' (p_storage s)) \<Longrightarrow> p_storage (prompt_commit s) = p_storage s"
proof (induction s rule: prompt_commit.induct)
  case (1 s)
  show ?case
  proof (cases "p_rendered s = Some (currentIndex s, p_hasPlayed s)")
    case True
    then show ?thesis
      by (subst prompt_commit.simps) simp
  next
    case False
    have st: "p_storage (prompt_pass s) = p_storage s"
      using "1.prems" by (simp add: prompt_pass_fields)
    have "prompt_commit s = prompt_commit (prompt_pass s)"
      using False by (subst prompt_commit.simps) simp
    with "1.IH" [OF False] "1.prems" st show ?thesis
      by simp
  qed
qed

lemma handleKeyPress_sets_flag_once:
  assumes "prompt_good s" "p_mounted s" "\<not> p_hasPlayed s"
  shows "setItem_log (p_storage (handleKeyPress s)) = ''promptPlayed'' # setItem_log (p_storage s)
       \<and> truthy (getItem ''promptPlayed'' (p_storage (handleKeyPress s)))
       \<and> p_displayText (handleKeyPress s) = fullText"
proof -
  from assms(1) have inv: "prompt_inv s"
    and settled: "p_rendered s = Some (currentIndex s, p_hasPlayed s)"
    by (simp_all add: prompt_good_def)
  from inv have "key_handler s = Some (snd r)" if "p_mounted s" "p_rendered s = Some r" for r
    using that unfolding prompt_inv_def by blast
  from this [OF assms(2) settled] have "key_handler s = Some (p_hasPlayed s)"
    by simp
  with assms(3) have kh: "key_handler s = Some False"
    by simp
  define s2 where "s2 = s\<lparr>p_displayText := fullText, currentIndex := length fullText,
     p_storage := setItem ''promptPlayed'' ''true'' (p_storage s), p_hasPlayed := True\<rparr>"
  have key: "handleKeyPress s = prompt_commit s2"
    using kh by (simp add: handleKeyPress_def s2_def)
  have t: "truthy (getItem ''promptPlayed'' (p_storage s2))"
    by (simp add: s2_def truthy_promptPlayed)
  from prompt_commit_storage [OF t]
  have e: "p_storage (handleKeyPress s) = setItem ''promptPlayed'' ''true'' (p_storage s)"
    unfolding key by (simp add: s2_def)
  have d: "p_displayText (prompt_commit x) = fullText"
    if "truthy (getItem ''promptPlayed'' (p_storage x))" "p_displayText x = fullText" for x
    using that
  proof (induction x rule: prompt_commit.induct)
    case (1 x)
    show ?case
    proof (cases "p_rendered x = Some (currentIndex x, p_hasPlayed x)")
      case True
      with "1.prems" show ?thesis
        by (subst prompt_commit.simps) simp
    next
      case False
      have "truthy (getItem ''promptPlayed'' (p_storage (prompt_pass x)))"
        "p_displayText (prompt_pass x) = fullText"
        using "1.prems" by (simp_all add: prompt_pass_fields)
      from "1.IH" [OF False this] False show ?thesis
        by (subst prompt_commit.simps) simp
    qed
  qed
  have "p_displayText (handleKeyPress s) = fullText"
    unfolding key using t by (rule d) (simp add: s2_def)
  moreover from e have "setItem_log (p_storage (handleKeyPress s)) = ''promptPlayed'' # setItem_log (p_storage s)"
    by (simp add: setItem_def)
  moreover from e have "truthy (getItem ''promptPlayed'' (p_storage (handleKeyPress s)))"
    by (simp add: truthy_promptPlayed)
  ultimately show ?thesis
    by simp
qed

end
